theory Spec2Isabelle
  imports Main "HOL-Library.Word" "HOL-Library.Monad_Syntax"
begin

unbundle bit_operations_syntax

section \<open>The shadow map of flexible-shadow.hpp\<close>

text \<open>
  The header defines one class template, \<^verbatim>\<open>ShadowMap<Address, Leaf, shadow_malloc,
  shadow_free, dimension0, dimensions...>\<close>, and its specialisation for an empty pack
  \<^verbatim>\<open>dimensions...\<close>. A member function of the template is modelled by a function that takes
  \<open>dimension0\<close> (a \<open>nat\<close>) and \<open>dimensions...\<close> (a \<open>nat list\<close>) first: the equation for the
  empty list is the specialisation, the equation for \<open>d1 # ds\<close> is the primary template, and
  \<^verbatim>\<open>Lower\<close> is the same function at \<open>d1\<close> and \<open>ds\<close>.

  For the maps in the store and their lookups, \<^verbatim>\<open>Address\<close> is the type the header's
  documentation names, \<^verbatim>\<open>unsigned long long\<close>; \<^verbatim>\<open>unsigned long\<close> (the type of \<^verbatim>\<open>1ul\<close>) has 64
  bits as well. The static functions \<^verbatim>\<open>index\<close> and \<^verbatim>\<open>contiguousElements\<close> convert between
  \<^verbatim>\<open>Address\<close> and these 64-bit types, so they are modelled for an unsigned \<^verbatim>\<open>Address\<close> of any
  width, \<open>'a word\<close>. A shift by 64 or more is undefined in C++ and yields 0 on words here;
  the statements about maps in the store assume dimensions for which every shift of the
  header is defined (\<open>valid_dims\<close> below).

  A dereference of a pointer that does not point to a live object of the expected type is
  undefined behaviour in C++; in the model it is the result \<open>None\<close>, so that a statement
  with a result \<open>Some\<close> says that no such access happened.
\<close>

type_synonym Address = "64 word"

text \<open>A pointer is the address of an object; \<^verbatim>\<open>nullptr\<close> is 0.\<close>

type_synonym ptr = nat

abbreviation nullptr :: ptr where
  "nullptr \<equiv> 0"

subsection \<open>The store\<close>

text \<open>
  Modelled from the spec: the caller-supplied type \<^verbatim>\<open>Leaf\<close>, of which the header uses the
  member functions \<^verbatim>\<open>construct()\<close> and \<^verbatim>\<open>destruct()\<close> only. A leaf records its lifecycle:
  storage that was never initialised, initialised, or finalised.
\<close>

datatype Leaf = Leaf_raw | Leaf_constructed | Leaf_destructed

text \<open>
  An object of the primary template holds the array \<^verbatim>\<open>_pointers\<close>, an object of the
  specialisation holds \<^verbatim>\<open>_leaf\<close>. \<^verbatim>\<open>_leaf\<close> is the only member, so \<^verbatim>\<open>&_leaf\<close> is the address
  of the object.
\<close>

datatype obj = Level "ptr list" | Term Leaf

text \<open>
  The calls that leave the header are logged: the two allocator functions and the two
  lifecycle functions of \<^verbatim>\<open>Leaf\<close>. \<open>DestructAt p\<close> marks the return of \<^verbatim>\<open>destructAt(p)\<close>.
\<close>

datatype event = Malloc ptr | Free ptr | Construct ptr | Destruct ptr | DestructAt ptr

text \<open>
  The state: the objects that are alive, the allocator's high-water mark (the highest
  address handed out so far), the contents that fresh storage happens to have (the header
  never relies on them), and the log.
\<close>

record state =
  heap :: "ptr \<Rightarrow> obj option"
  brk :: ptr
  junk :: "nat \<Rightarrow> ptr"
  trace :: "event list"

text \<open>\<^verbatim>\<open>1ul << dimension0\<close>, the length of \<^verbatim>\<open>_pointers\<close> and the bound of the loops.\<close>

definition nslots :: "nat \<Rightarrow> nat" where
  "nslots dimension0 = unat (push_bit dimension0 (1 :: 64 word))"

text \<open>Storage for a \<^verbatim>\<open>ShadowMap<dimension0, dimensions...>\<close> before its \<^verbatim>\<open>constructAt\<close>.\<close>

fun raw_obj :: "nat \<Rightarrow> nat list \<Rightarrow> (nat \<Rightarrow> ptr) \<Rightarrow> obj" where
  "raw_obj dimension0 [] j = Term Leaf_raw"
| "raw_obj dimension0 (d1 # ds) j = Level (map j [0..<nslots dimension0])"

text \<open>
  Modelled from the spec: \<^verbatim>\<open>shadow_malloc\<close> is declared in the header and defined elsewhere.
  Its contract is that it always returns a valid pointer: here an address that was never
  handed out and is not null. \<^verbatim>\<open>(Lower*)shadow_malloc(sizeof(Lower))\<close> is one step of the
  model, which takes the dimensions of \<^verbatim>\<open>Lower\<close> in place of the size.
\<close>

definition shadow_malloc :: "nat \<Rightarrow> nat list \<Rightarrow> state \<Rightarrow> ptr \<times> state" where
  "shadow_malloc d1 ds s =
     (let p = Suc (brk s)
      in (p, s\<lparr>heap := (heap s)(p \<mapsto> raw_obj d1 ds (junk s)), brk := p,
                trace := trace s @ [Malloc p]\<rparr>))"

text \<open>
  Modelled from the spec: \<^verbatim>\<open>shadow_free\<close> releases storage that \<^verbatim>\<open>shadow_malloc\<close> returned.
  Releasing an address that holds no object is undefined behaviour, which is \<open>None\<close>.
\<close>

definition shadow_free :: "ptr \<Rightarrow> state \<Rightarrow> state option" where
  "shadow_free p s =
     (case heap s p of
        None \<Rightarrow> None
      | Some _ \<Rightarrow> Some (s\<lparr>heap := (heap s)(p := None), trace := trace s @ [Free p]\<rparr>))"

text \<open>
  Reading and writing \<^verbatim>\<open>map->_pointers[i]\<close>. An access through a pointer that does not hold an
  object of the primary template, or outside the array, is undefined behaviour: \<open>None\<close>.
\<close>

definition get_pointer :: "state \<Rightarrow> ptr \<Rightarrow> nat \<Rightarrow> ptr option" where
  "get_pointer s m i =
     (case heap s m of
        Some (Level ps) \<Rightarrow> if i < length ps then Some (ps ! i) else None
      | _ \<Rightarrow> None)"

definition set_pointer :: "ptr \<Rightarrow> nat \<Rightarrow> ptr \<Rightarrow> state \<Rightarrow> state option" where
  "set_pointer m i v s =
     (case heap s m of
        Some (Level ps) \<Rightarrow>
          if i < length ps then Some (s\<lparr>heap := (heap s)(m \<mapsto> Level (ps[i := v]))\<rparr>) else None
      | _ \<Rightarrow> None)"

text \<open>
  Modelled from the spec: \<^verbatim>\<open>Leaf::construct()\<close> and \<^verbatim>\<open>Leaf::destruct()\<close>, the initialise and
  finalise operations of the caller's record, called as \<^verbatim>\<open>map->_leaf.construct()\<close> and
  \<^verbatim>\<open>map->_leaf.destruct()\<close>. Each sets the lifecycle of the leaf and logs the call.
\<close>

definition Leaf_construct :: "ptr \<Rightarrow> state \<Rightarrow> state option" where
  "Leaf_construct m s =
     (case heap s m of
        Some (Term l) \<Rightarrow>
          Some (s\<lparr>heap := (heap s)(m \<mapsto> Term Leaf_constructed), trace := trace s @ [Construct m]\<rparr>)
      | _ \<Rightarrow> None)"

definition Leaf_destruct :: "ptr \<Rightarrow> state \<Rightarrow> state option" where
  "Leaf_destruct m s =
     (case heap s m of
        Some (Term l) \<Rightarrow>
          Some (s\<lparr>heap := (heap s)(m \<mapsto> Term Leaf_destructed), trace := trace s @ [Destruct m]\<rparr>)
      | _ \<Rightarrow> None)"

text \<open>\<^verbatim>\<open>for(unsigned long long i=0; i<n; i++) body\<close>, over the indices \<open>[0..<n]\<close>.\<close>

primrec for_loop :: "nat list \<Rightarrow> (nat \<Rightarrow> state \<Rightarrow> state option) \<Rightarrow> state \<Rightarrow> state option" where
  "for_loop [] body s = Some s"
| "for_loop (i # is) body s =
     (case body i s of None \<Rightarrow> None | Some s' \<Rightarrow> for_loop is body s')"

lemma for_loop_cong [fundef_cong]:
  "is = js \<Longrightarrow> s = t \<Longrightarrow> (\<And>i u. i \<in> set js \<Longrightarrow> f i u = g i u) \<Longrightarrow>
   for_loop is f s = for_loop js g t"
proof (induction "is" arbitrary: js s t)
  case Nil
  then show ?case by simp
next
  case (Cons i "is")
  then show ?case by (auto split: option.splits)
qed

subsection \<open>The member functions\<close>

text \<open>\<^verbatim>\<open>dimensions_sum\<close>: the number of address bits the map and the maps below it cover.\<close>

fun dimensions_sum :: "nat \<Rightarrow> nat list \<Rightarrow> nat" where
  "dimensions_sum dimension0 [] = dimension0"
| "dimensions_sum dimension0 (d1 # ds) = dimension0 + dimensions_sum d1 ds"

text \<open>\<^verbatim>\<open>constructAt\<close>: the array is set to null slot by slot; the leaf is constructed.\<close>

fun constructAt :: "nat \<Rightarrow> nat list \<Rightarrow> ptr \<Rightarrow> state \<Rightarrow> state option" where
  "constructAt dimension0 [] m s = Leaf_construct m s"
| "constructAt dimension0 (d1 # ds) m s =
     for_loop [0..<nslots dimension0] (\<lambda>i. set_pointer m i nullptr) s"

text \<open>
  \<^verbatim>\<open>destructAt\<close>: every slot that is not null has its map destructed and then released. The
  slot is read again for each of the two calls, as the source does. The slots are not set
  to null. The last step of either equation logs that the call returns; it changes nothing
  else.
\<close>

fun destructAt :: "nat \<Rightarrow> nat list \<Rightarrow> ptr \<Rightarrow> state \<Rightarrow> state option" where
  "destructAt dimension0 [] m s =
     do { s1 \<leftarrow> Leaf_destruct m s;
          Some (s1\<lparr>trace := trace s1 @ [DestructAt m]\<rparr>) }"
| "destructAt dimension0 (d1 # ds) m s =
     do { s1 \<leftarrow> for_loop [0..<nslots dimension0]
                  (\<lambda>i t. do { p \<leftarrow> get_pointer t m i;
                              if p \<noteq> nullptr
                              then do { q \<leftarrow> get_pointer t m i;
                                        t1 \<leftarrow> destructAt d1 ds q t;
                                        r \<leftarrow> get_pointer t1 m i;
                                        shadow_free r t1 }
                              else Some t }) s;
          Some (s1\<lparr>trace := trace s1 @ [DestructAt m]\<rparr>) }"

text \<open>The constructor and the destructor "for the user".\<close>

definition ShadowMap_new :: "nat \<Rightarrow> nat list \<Rightarrow> ptr \<Rightarrow> state \<Rightarrow> state option" where
  "ShadowMap_new dimension0 ds this s = constructAt dimension0 ds this s"

definition ShadowMap_delete :: "nat \<Rightarrow> nat list \<Rightarrow> ptr \<Rightarrow> state \<Rightarrow> state option" where
  "ShadowMap_delete dimension0 ds this s = destructAt dimension0 ds this s"

text \<open>
  The index of \<^verbatim>\<open>leaf\<close> and \<^verbatim>\<open>leaf_for_write\<close>:
  \<^verbatim>\<open>(addr>>Lower::dimensions_sum) & ((1ul<<dimension0)-1)\<close>.
\<close>

definition slot_index :: "nat \<Rightarrow> nat \<Rightarrow> nat list \<Rightarrow> Address \<Rightarrow> nat" where
  "slot_index dimension0 d1 ds addr =
     unat (drop_bit (dimensions_sum d1 ds) addr AND (push_bit dimension0 1 - 1))"

text \<open>
  \<^verbatim>\<open>leaf\<close>. The source's function has no write; the model returns the state all the same, so
  that what it leaves unchanged is a statement and not a matter of its type.
\<close>

fun leaf :: "nat \<Rightarrow> nat list \<Rightarrow> state \<Rightarrow> ptr \<Rightarrow> Address \<Rightarrow> (ptr \<times> state) option" where
  "leaf dimension0 [] s this addr = Some (this, s)"
| "leaf dimension0 (d1 # ds) s this addr =
     (let index = slot_index dimension0 d1 ds addr
      in do { pointer \<leftarrow> get_pointer s this index;
              if pointer = nullptr then Some (nullptr, s)
              else leaf d1 ds s pointer addr })"

text \<open>
  \<^verbatim>\<open>leaf_for_write\<close>. In the branch that allocates, the source reads \<^verbatim>\<open>_pointers[index]\<close> again
  for \<^verbatim>\<open>constructAt\<close> and for the recursive call; so does the model.
\<close>

fun leaf_for_write :: "nat \<Rightarrow> nat list \<Rightarrow> state \<Rightarrow> ptr \<Rightarrow> Address \<Rightarrow> (ptr \<times> state) option" where
  "leaf_for_write dimension0 [] s this addr = Some (this, s)"
| "leaf_for_write dimension0 (d1 # ds) s this addr =
     (let index = slot_index dimension0 d1 ds addr
      in do { pointer \<leftarrow> get_pointer s this index;
              if pointer = nullptr
              then do { s2 \<leftarrow> (case shadow_malloc d1 ds s of (p, s1) \<Rightarrow> set_pointer this index p s1);
                        q \<leftarrow> get_pointer s2 this index;
                        s3 \<leftarrow> constructAt d1 ds q s2;
                        r \<leftarrow> get_pointer s3 this index;
                        leaf_for_write d1 ds s3 r addr }
              else leaf_for_write d1 ds s pointer addr })"

text \<open>
  \<^verbatim>\<open>index\<close> and \<^verbatim>\<open>contiguousElements\<close>, static member functions, for an unsigned \<^verbatim>\<open>Address\<close> of
  \<open>LENGTH('a)\<close> bits. In \<^verbatim>\<open>addr & ((1ul<<dimension0)-1)\<close> the operands are brought to a common
  unsigned type and the result is returned as \<^verbatim>\<open>unsigned long long\<close>: that is the address
  converted to 64 bits (\<open>ucast\<close>: extended with zeros, or cut to its low 64 bits) and masked
  there. In \<^verbatim>\<open>(1ul<<dimension0) - index(addr)\<close> the difference is taken in 64 bits, and the
  return type \<^verbatim>\<open>Address\<close> of \<^verbatim>\<open>contiguousElements\<close> converts it to \<^verbatim>\<open>Address\<close>, which keeps its
  low \<open>LENGTH('a)\<close> bits.
\<close>

fun index :: "nat \<Rightarrow> nat list \<Rightarrow> 'a::len word \<Rightarrow> 64 word" where
  "index dimension0 [] addr = ucast addr AND (push_bit dimension0 1 - 1)"
| "index dimension0 (d1 # ds) addr = index d1 ds addr"

fun contiguousElements :: "nat \<Rightarrow> nat list \<Rightarrow> 'a::len word \<Rightarrow> 'a word" where
  "contiguousElements dimension0 [] addr =
     ucast (push_bit dimension0 1 - index dimension0 [] addr)"
| "contiguousElements dimension0 (d1 # ds) addr = contiguousElements d1 ds addr"

subsection \<open>Well-formed maps\<close>

text \<open>
  The shifts of the header are defined when \<^verbatim>\<open>dimension0\<close> and the sum of the dimensions
  below it are less than 64.
\<close>

definition valid_dims :: "nat \<Rightarrow> nat list \<Rightarrow> bool" where
  "valid_dims dimension0 ds \<longleftrightarrow> dimension0 < 64 \<and> sum_list ds < 64"

text \<open>The addresses of a map and of all the maps below it.\<close>

fun nodes :: "(ptr \<Rightarrow> obj option) \<Rightarrow> nat \<Rightarrow> nat list \<Rightarrow> ptr \<Rightarrow> ptr set" where
  "nodes h dimension0 [] this = {this}"
| "nodes h dimension0 (d1 # ds) this =
     (case h this of
        Some (Level ps) \<Rightarrow> insert this (\<Union>c \<in> set ps - {nullptr}. nodes h d1 ds c)
      | _ \<Rightarrow> {this})"

text \<open>
  The objects below a map form a tree: every array has its \<^verbatim>\<open>1ul << dimension0\<close> slots, a slot
  that is not null points to a map of the next level that is a tree itself, no map is below
  itself, and the maps below two slots are apart. The leaves are constructed.
\<close>

fun tree :: "(ptr \<Rightarrow> obj option) \<Rightarrow> nat \<Rightarrow> nat list \<Rightarrow> ptr \<Rightarrow> bool" where
  "tree h dimension0 [] this =
     (case h this of Some (Term l) \<Rightarrow> l = Leaf_constructed | _ \<Rightarrow> False)"
| "tree h dimension0 (d1 # ds) this =
     (case h this of
        Some (Level ps) \<Rightarrow>
          length ps = nslots dimension0 \<and>
          (\<forall>i < length ps. ps ! i \<noteq> nullptr \<longrightarrow>
             tree h d1 ds (ps ! i) \<and> this \<notin> nodes h d1 ds (ps ! i) \<and>
             (\<forall>j < length ps. j \<noteq> i \<longrightarrow> ps ! j \<noteq> nullptr \<longrightarrow>
                nodes h d1 ds (ps ! i) \<inter> nodes h d1 ds (ps ! j) = {}))
      | _ \<Rightarrow> False)"

text \<open>
  A well-formed map: the dimensions are valid, the map is at an address that is not null,
  its objects form a tree, and none of them is above the allocator's high-water mark, so
  that storage handed out later is apart from them (the root is the caller's storage, which
  the allocator does not hand out either). The constructor leaves such a map
  (\<open>ShadowMap_new_wf\<close> below) and every write-triggering lookup keeps it.
\<close>

definition wf_map :: "nat \<Rightarrow> nat list \<Rightarrow> state \<Rightarrow> ptr \<Rightarrow> bool" where
  "wf_map dimension0 ds s this \<longleftrightarrow>
     valid_dims dimension0 ds \<and> this \<noteq> nullptr \<and> tree (heap s) dimension0 ds this \<and>
     (\<forall>q \<in> nodes (heap s) dimension0 ds this. q \<le> brk s)"

text \<open>
  Every map on the way down exists: the slot the descent takes is not null, at every level.
\<close>

fun path_present :: "nat \<Rightarrow> nat list \<Rightarrow> state \<Rightarrow> ptr \<Rightarrow> Address \<Rightarrow> bool" where
  "path_present dimension0 [] s this addr = True"
| "path_present dimension0 (d1 # ds) s this addr =
     (case get_pointer s this (slot_index dimension0 d1 ds addr) of
        None \<Rightarrow> False
      | Some pointer \<Rightarrow> pointer \<noteq> nullptr \<and> path_present d1 ds s pointer addr)"

subsection \<open>Sequences of lookups, and what the log holds\<close>

text \<open>A caller that performs one write-triggering lookup after the other.\<close>

fun writes :: "nat \<Rightarrow> nat list \<Rightarrow> ptr \<Rightarrow> Address list \<Rightarrow> state \<Rightarrow> state option" where
  "writes dimension0 ds this [] s = Some s"
| "writes dimension0 ds this (addr # addrs) s =
     (case leaf_for_write dimension0 ds s this addr of
        None \<Rightarrow> None
      | Some (p, s') \<Rightarrow> writes dimension0 ds this addrs s')"

text \<open>The leaves that the log says were constructed, in the order of the calls.\<close>

fun constructed :: "event list \<Rightarrow> ptr list" where
  "constructed [] = []"
| "constructed (Construct p # es) = p # constructed es"
| "constructed (e # es) = constructed es"

subsection \<open>What a write-triggering lookup may change\<close>

text \<open>
  An object keeps what it holds when an array keeps its length and every slot that is not
  null, and a leaf is the same.
\<close>

definition keeps :: "obj option \<Rightarrow> obj option \<Rightarrow> bool" where
  "keeps a b =
     (case a of
        Some (Level ps) \<Rightarrow>
          (case b of
             Some (Level ps') \<Rightarrow>
               length ps' = length ps \<and> (\<forall>k < length ps. ps ! k \<noteq> nullptr \<longrightarrow> ps' ! k = ps ! k)
           | _ \<Rightarrow> False)
      | _ \<Rightarrow> b = a)"

text \<open>
  From \<open>s\<close> to \<open>s'\<close> the map at \<open>this\<close> has grown: it is a tree again, its maps are those it
  had and all the storage allocated in between, storage of others that the allocator knew
  of is untouched, the objects of the map keep what they held, and the log has grown by
  events that construct leaves in the new storage only, each once.
\<close>

definition grows :: "nat \<Rightarrow> nat list \<Rightarrow> ptr \<Rightarrow> state \<Rightarrow> state \<Rightarrow> bool" where
  "grows d0 ds this s s' \<longleftrightarrow>
     tree (heap s') d0 ds this \<and> brk s \<le> brk s' \<and> junk s' = junk s \<and>
     nodes (heap s') d0 ds this = nodes (heap s) d0 ds this \<union> {brk s <.. brk s'} \<and>
     (\<forall>q. q \<le> brk s \<longrightarrow> q \<notin> nodes (heap s) d0 ds this \<longrightarrow> heap s' q = heap s q) \<and>
     (\<forall>q \<in> nodes (heap s) d0 ds this. keeps (heap s q) (heap s' q)) \<and>
     (\<exists>evs. trace s' = trace s @ evs \<and> distinct (constructed evs) \<and>
            set (constructed evs) \<subseteq> {brk s <.. brk s'})"

subsection \<open>What the log of a teardown holds\<close>

text \<open>
  The addresses released, the addresses whose \<^verbatim>\<open>destructAt\<close> returned, and the leaves whose
  \<^verbatim>\<open>destruct()\<close> was called, in order.
\<close>

fun freed :: "event list \<Rightarrow> ptr list" where
  "freed [] = []"
| "freed (Free p # es) = p # freed es"
| "freed (e # es) = freed es"

fun finalized :: "event list \<Rightarrow> ptr list" where
  "finalized [] = []"
| "finalized (DestructAt p # es) = p # finalized es"
| "finalized (e # es) = finalized es"

fun destructed :: "event list \<Rightarrow> ptr list" where
  "destructed [] = []"
| "destructed (Destruct p # es) = p # destructed es"
| "destructed (e # es) = destructed es"

text \<open>
  The log that tearing down a tree should leave, read off the tree: for every slot that is
  not null, in the order of the slots, the log of the map below, then its release; the
  return of \<^verbatim>\<open>destructAt\<close> last.
\<close>

fun teardown :: "(ptr \<Rightarrow> obj option) \<Rightarrow> nat \<Rightarrow> nat list \<Rightarrow> ptr \<Rightarrow> event list" where
  "teardown h dimension0 [] this = [Destruct this, DestructAt this]"
| "teardown h dimension0 (d1 # ds) this =
     (case h this of
        Some (Level ps) \<Rightarrow>
          concat (map (\<lambda>c. if c = nullptr then [] else teardown h d1 ds c @ [Free c]) ps) @
          [DestructAt this]
      | _ \<Rightarrow> [])"

text \<open>
  Every release stands right after the return of \<^verbatim>\<open>destructAt\<close> for the same address; a log
  does not start with a release; one event stands before another.
\<close>

definition paired :: "event list \<Rightarrow> bool" where
  "paired evs \<longleftrightarrow> (\<forall>xs q ys. evs = xs @ Free q # ys \<longrightarrow> xs \<noteq> [] \<and> last xs = DestructAt q)"

definition starts_ok :: "event list \<Rightarrow> bool" where
  "starts_ok evs \<longleftrightarrow> evs = [] \<or> (\<forall>q. hd evs \<noteq> Free q)"

definition before :: "event \<Rightarrow> event \<Rightarrow> event list \<Rightarrow> bool" where
  "before a b evs \<longleftrightarrow> (\<exists>xs ys zs. evs = xs @ a # ys @ b # zs)"

subsection \<open>Example states\<close>

text \<open>
  A map of the dimensions (1, 1) at address 1, whose slot 1 holds the leaf at address 2; the
  storage of such a map before its constructor ran; and a single-level map at address 1,
  before and after its constructor.
\<close>

definition example_map :: state where
  "example_map =
     \<lparr>heap = (\<lambda>_. None)(1 \<mapsto> Level [nullptr, 2], 2 \<mapsto> Term Leaf_constructed),
      brk = 2, junk = (\<lambda>_. 7), trace = [Malloc 2, Construct 2]\<rparr>"

definition example_storage :: state where
  "example_storage =
     \<lparr>heap = (\<lambda>_. None)(1 \<mapsto> Level [5, 3]), brk = 1, junk = (\<lambda>_. 7), trace = []\<rparr>"

definition single_storage :: state where
  "single_storage =
     \<lparr>heap = (\<lambda>_. None)(1 \<mapsto> Term Leaf_raw), brk = 1, junk = (\<lambda>_. 7), trace = []\<rparr>"

definition single_map :: state where
  "single_map =
     \<lparr>heap = (\<lambda>_. None)(1 \<mapsto> Term Leaf_constructed), brk = 1, junk = (\<lambda>_. 7),
      trace = [Construct 1]\<rparr>"

section \<open>Arithmetic of the indices\<close>

lemma unat_and_mask: "unat ((x :: 64 word) AND (push_bit n 1 - 1)) = unat x mod 2 ^ n"
  by (metis mask_eq_exp_minus_1 push_bit_of_1 take_bit_eq_mask take_bit_nat_def
      unsigned_take_bit_eq)

lemma unat_drop_bit_div: "unat (drop_bit n (x :: 64 word)) = unat x div 2 ^ n"
  by (simp only: unat_drop_bit_eq drop_bit_nat_def)

lemma unat_push_bit_1:
  assumes "d0 < 64"
  shows "unat (push_bit d0 (1 :: 64 word)) = 2 ^ d0"
proof -
  have "unat (push_bit d0 (1 :: 64 word)) =
        take_bit LENGTH(64) (push_bit d0 (unat (1 :: 64 word)))"
    by (rule unsigned_push_bit_eq)
  also have "\<dots> = take_bit 64 ((2::nat) ^ d0)"
    by simp
  also have "\<dots> = 2 ^ d0"
    using assms by (simp add: take_bit_nat_eq_self)
  finally show ?thesis .
qed

lemma nslots_eq: "d0 < 64 \<Longrightarrow> nslots d0 = 2 ^ d0"
  by (simp only: nslots_def unat_push_bit_1)

lemma slot_index_eq:
  "slot_index d0 d1 ds addr = (unat addr div 2 ^ dimensions_sum d1 ds) mod 2 ^ d0"
  by (simp only: slot_index_def unat_and_mask unat_drop_bit_div)

lemma slot_index_less: "d0 < 64 \<Longrightarrow> slot_index d0 d1 ds addr < nslots d0"
  by (simp add: slot_index_eq nslots_eq)

lemma dimensions_sum_eq: "dimensions_sum d0 ds = sum_list (d0 # ds)"
  by (induction d0 ds rule: dimensions_sum.induct) simp_all

lemma unat_ucast_mod:
  "unat (ucast (x :: 'b::len word) :: 'a::len word) = unat x mod 2 ^ LENGTH('a)"
proof -
  have "unat (ucast x :: 'a word) = take_bit LENGTH('a) (unat x)"
    by (rule unsigned_ucast_eq)
  then show ?thesis
    by (simp only: take_bit_nat_def)
qed

lemma unat_ucast_up:
  assumes "LENGTH('a::len) \<le> 64"
  shows "unat (ucast (x :: 'a word) :: 64 word) = unat x"
proof -
  have "unat x < 2 ^ LENGTH('a)"
    by (rule unsigned_less)
  also have "(2::nat) ^ LENGTH('a) \<le> 2 ^ 64"
    using assms by (rule power_increasing) simp
  finally have "unat x mod 2 ^ LENGTH(64) = unat x"
    by simp
  then show ?thesis
    by (simp only: unat_ucast_mod)
qed

text \<open>
  For an \<^verbatim>\<open>Address\<close> of at most 64 bits, \<^verbatim>\<open>index(addr)\<close> is \<open>addr mod 2 ^ Wn\<close>, where \<open>Wn\<close> is the
  last width.
\<close>

lemma index_eq:
  "LENGTH('a::len) \<le> 64 \<Longrightarrow>
   unat (index d0 ds (addr :: 'a word)) = unat addr mod 2 ^ last (d0 # ds)"
proof (induction ds arbitrary: d0)
  case Nil
  have "unat (index d0 [] addr) = unat (ucast addr :: 64 word) mod 2 ^ d0"
    by (simp only: index.simps unat_and_mask)
  also have "\<dots> = unat addr mod 2 ^ d0"
    by (simp only: unat_ucast_up [OF Nil])
  finally show ?case by simp
next
  case (Cons d1 ds)
  then show ?case by simp
qed

lemma index_less:
  "LENGTH('a::len) \<le> 64 \<Longrightarrow> unat (index d0 ds (addr :: 'a word)) < 2 ^ last (d0 # ds)"
  by (simp only: index_eq) simp

text \<open>
  Where the shift \<^verbatim>\<open>1ul << Wn\<close> is defined, \<^verbatim>\<open>contiguousElements(addr)\<close> is
  \<open>2 ^ Wn - index(addr)\<close> cut to the width of \<^verbatim>\<open>Address\<close>. The difference is at most \<open>2 ^ Wn\<close>,
  so nothing is cut when \<open>Wn\<close> is less than that width.
\<close>

lemma contiguousElements_eq:
  "LENGTH('a::len) \<le> 64 \<Longrightarrow> last (d0 # ds) < 64 \<Longrightarrow>
   unat (contiguousElements d0 ds (addr :: 'a word)) =
     (2 ^ last (d0 # ds) - unat (index d0 ds addr)) mod 2 ^ LENGTH('a)"
proof (induction ds arbitrary: d0)
  case Nil
  then have d: "d0 < 64" by simp
  have lt: "unat (index d0 [] addr) < 2 ^ d0"
    using index_less [OF Nil(1), of d0 "[]" addr] by simp
  then have "index d0 [] addr \<le> push_bit d0 1"
    by (simp only: word_le_nat_alt unat_push_bit_1 [OF d])
  then have "unat (push_bit d0 1 - index d0 [] addr) = 2 ^ d0 - unat (index d0 [] addr)"
    by (simp only: unat_sub unat_push_bit_1 [OF d])
  then have "unat (contiguousElements d0 [] addr) =
             (2 ^ d0 - unat (index d0 [] addr)) mod 2 ^ LENGTH('a)"
    by (simp only: contiguousElements.simps unat_ucast_mod)
  then show ?case by simp
next
  case (Cons d1 ds)
  then show ?case by simp
qed

lemma contiguousElements_fits:
  assumes "LENGTH('a::len) \<le> 64" and "last (d0 # ds) < LENGTH('a)"
  shows "unat (contiguousElements d0 ds (addr :: 'a word)) =
         2 ^ last (d0 # ds) - unat (index d0 ds addr)"
proof -
  have w: "last (d0 # ds) < 64" using assms by simp
  have "(2::nat) ^ last (d0 # ds) < 2 ^ LENGTH('a)"
    using assms(2) by (rule power_strict_increasing) simp
  then have "2 ^ last (d0 # ds) - unat (index d0 ds addr) < 2 ^ LENGTH('a)"
    by (rule less_imp_diff_less)
  then show ?thesis
    by (simp only: contiguousElements_eq [OF assms(1) w] mod_less)
qed

section \<open>Trees and frames\<close>

lemma valid_dims_lower: "valid_dims d0 (d1 # ds) \<Longrightarrow> valid_dims d1 ds"
  by (simp add: valid_dims_def)

lemma valid_dims_d0: "valid_dims d0 ds \<Longrightarrow> d0 < 64"
  by (simp add: valid_dims_def)

lemma nodes_self: "this \<in> nodes h d0 ds this"
  by (cases ds) (simp_all split: option.splits obj.splits)

lemma nodes_Level:
  "h this = Some (Level ps) \<Longrightarrow>
   nodes h d0 (d1 # ds) this = insert this (\<Union>c \<in> set ps - {nullptr}. nodes h d1 ds c)"
  by simp

lemma nodes_child:
  "h this = Some (Level ps) \<Longrightarrow> i < length ps \<Longrightarrow> ps ! i \<noteq> nullptr \<Longrightarrow>
   nodes h d1 ds (ps ! i) \<subseteq> nodes h d0 (d1 # ds) this"
  by (auto simp: nodes_Level)

lemma tree_Level:
  "h this = Some (Level ps) \<Longrightarrow>
   tree h d0 (d1 # ds) this \<longleftrightarrow>
     length ps = nslots d0 \<and>
     (\<forall>i < length ps. ps ! i \<noteq> nullptr \<longrightarrow>
        tree h d1 ds (ps ! i) \<and> this \<notin> nodes h d1 ds (ps ! i) \<and>
        (\<forall>j < length ps. j \<noteq> i \<longrightarrow> ps ! j \<noteq> nullptr \<longrightarrow>
           nodes h d1 ds (ps ! i) \<inter> nodes h d1 ds (ps ! j) = {}))"
  by simp

lemma tree_LevelD:
  "tree h d0 (d1 # ds) this \<Longrightarrow> \<exists>ps. h this = Some (Level ps) \<and> length ps = nslots d0"
  by (auto split: option.splits obj.splits)

lemma nodes_frame:
  "(\<And>q. q \<in> nodes h d0 ds this \<Longrightarrow> h' q = h q) \<Longrightarrow> nodes h' d0 ds this = nodes h d0 ds this"
proof (induction ds arbitrary: d0 this)
  case Nil
  show ?case by simp
next
  case (Cons d1 ds)
  have same: "h' this = h this"
    by (rule Cons.prems) (rule nodes_self)
  show ?case
  proof (cases "\<exists>ps. h this = Some (Level ps)")
    case False
    with same show ?thesis by (auto split: option.splits obj.splits)
  next
    case True
    then obtain ps where hl: "h this = Some (Level ps)" by blast
    have eq: "nodes h' d1 ds c = nodes h d1 ds c" if c: "c \<in> set ps - {nullptr}" for c
    proof (rule Cons.IH)
      fix q assume "q \<in> nodes h d1 ds c"
      with c hl have "q \<in> nodes h d0 (d1 # ds) this" by auto
      then show "h' q = h q" by (rule Cons.prems)
    qed
    from hl same eq show ?thesis by simp
  qed
qed

lemma tree_frame:
  "(\<And>q. q \<in> nodes h d0 ds this \<Longrightarrow> h' q = h q) \<Longrightarrow> tree h' d0 ds this = tree h d0 ds this"
proof (induction ds arbitrary: d0 this)
  case Nil
  have "h' this = h this" by (rule Nil.prems) simp
  then show ?case by simp
next
  case (Cons d1 ds)
  have same: "h' this = h this"
    by (rule Cons.prems) (rule nodes_self)
  show ?case
  proof (cases "\<exists>ps. h this = Some (Level ps)")
    case False
    with same show ?thesis by (auto split: option.splits obj.splits)
  next
    case True
    then obtain ps where hl: "h this = Some (Level ps)" by blast
    have hl': "h' this = Some (Level ps)" using hl same by simp
    have sub: "h' q = h q" if "i < length ps" "ps ! i \<noteq> nullptr" "q \<in> nodes h d1 ds (ps ! i)" for i q
      using nodes_child [of h this ps i d1 ds d0, OF hl that(1) that(2)] that(3) Cons.prems by blast
    have n: "nodes h' d1 ds (ps ! i) = nodes h d1 ds (ps ! i)" if "i < length ps" "ps ! i \<noteq> nullptr" for i
      by (rule nodes_frame) (rule sub [OF that])
    have t: "tree h' d1 ds (ps ! i) = tree h d1 ds (ps ! i)" if "i < length ps" "ps ! i \<noteq> nullptr" for i
      by (rule Cons.IH) (rule sub [OF that])
    show ?thesis
      unfolding tree_Level [where h = h and this = this, OF hl] tree_Level [where h = h' and this = this, OF hl']
      using n t by (metis (no_types, lifting))
  qed
qed

lemma get_pointer_Some:
  "get_pointer s m i = Some c \<longleftrightarrow> (\<exists>ps. heap s m = Some (Level ps) \<and> i < length ps \<and> ps ! i = c)"
  by (auto simp: get_pointer_def split: option.splits obj.splits)

lemma get_pointer_Level:
  "heap s m = Some (Level ps) \<Longrightarrow> i < length ps \<Longrightarrow> get_pointer s m i = Some (ps ! i)"
  by (simp add: get_pointer_def)

lemma get_pointer_heap_cong:
  "heap s' m = heap s m \<Longrightarrow> get_pointer s' m i = get_pointer s m i"
  by (simp add: get_pointer_def)

lemma leaf_state: "leaf d0 ds s this addr = Some (p, s') \<Longrightarrow> s' = s"
proof (induction ds arbitrary: d0 this)
  case Nil
  then show ?case by simp
next
  case (Cons d1 ds)
  then show ?case
    by (auto simp: Let_def split: bind_splits if_splits)
qed

lemma leaf_total:
  "tree (heap s) d0 ds this \<Longrightarrow> valid_dims d0 ds \<Longrightarrow> \<exists>p. leaf d0 ds s this addr = Some (p, s)"
proof (induction ds arbitrary: d0 this)
  case Nil
  show ?case by simp
next
  case (Cons d1 ds)
  from Cons.prems(1) obtain ps where hl: "heap s this = Some (Level ps)" and len: "length ps = nslots d0"
    using tree_LevelD by blast
  let ?i = "slot_index d0 d1 ds addr"
  have i: "?i < length ps"
    using len slot_index_less [OF valid_dims_d0 [OF Cons.prems(2)]] by simp
  have gp: "get_pointer s this ?i = Some (ps ! ?i)"
    using hl i by (rule get_pointer_Level)
  show ?case
  proof (cases "ps ! ?i = nullptr")
    case True
    with gp show ?thesis by (simp add: Let_def)
  next
    case False
    have "tree (heap s) d1 ds (ps ! ?i)"
      using Cons.prems(1) i False unfolding tree_Level [where h = "heap s" and this = this, OF hl] by blast
    then have "\<exists>p. leaf d1 ds s (ps ! ?i) addr = Some (p, s)"
      using valid_dims_lower [OF Cons.prems(2)] by (rule Cons.IH)
    with gp False show ?thesis by (simp add: Let_def)
  qed
qed

lemma leaf_frame:
  "(\<And>q. q \<in> nodes (heap s) d0 ds this \<Longrightarrow> heap s' q = heap s q) \<Longrightarrow>
   map_option fst (leaf d0 ds s' this addr) = map_option fst (leaf d0 ds s this addr)"
proof (induction ds arbitrary: d0 this)
  case Nil
  show ?case by simp
next
  case (Cons d1 ds)
  have same: "heap s' this = heap s this"
    by (rule Cons.prems) (rule nodes_self)
  let ?i = "slot_index d0 d1 ds addr"
  have gp: "get_pointer s' this ?i = get_pointer s this ?i"
    using same by (rule get_pointer_heap_cong)
  show ?case
  proof (cases "get_pointer s this ?i")
    case None
    with gp show ?thesis by (simp add: Let_def)
  next
    case (Some c)
    show ?thesis
    proof (cases "c = nullptr")
      case True
      with Some gp show ?thesis by (simp add: Let_def)
    next
      case False
      from Some obtain ps where hl: "heap s this = Some (Level ps)" and i: "?i < length ps" and c: "ps ! ?i = c"
        unfolding get_pointer_Some by blast
      have "map_option fst (leaf d1 ds s' c addr) = map_option fst (leaf d1 ds s c addr)"
      proof (rule Cons.IH)
        fix q assume "q \<in> nodes (heap s) d1 ds c"
        then have "q \<in> nodes (heap s) d0 (d1 # ds) this"
          using nodes_child [where h = "heap s" and this = this, OF hl i] False c by blast
        then show "heap s' q = heap s q" by (rule Cons.prems)
      qed
      with Some gp False show ?thesis by (simp add: Let_def)
    qed
  qed
qed

lemma leaf_frame_Some:
  assumes "\<And>q. q \<in> nodes (heap s) d0 ds this \<Longrightarrow> heap s' q = heap s q"
    and "leaf d0 ds s this addr = Some (p, s)"
  shows "leaf d0 ds s' this addr = Some (p, s')"
proof -
  have "map_option fst (leaf d0 ds s' this addr) = Some p"
    using leaf_frame [of s d0 ds this s' addr] assms by simp
  then obtain t where "leaf d0 ds s' this addr = Some (p, t)" by auto
  then show ?thesis using leaf_state by blast
qed

lemma leaf_in_nodes:
  "leaf d0 ds s this addr = Some (p, s') \<Longrightarrow> p \<noteq> nullptr \<Longrightarrow> p \<in> nodes (heap s) d0 ds this"
proof (induction ds arbitrary: d0 this)
  case Nil
  then show ?case by simp
next
  case (Cons d1 ds)
  let ?i = "slot_index d0 d1 ds addr"
  from Cons.prems obtain c where gp: "get_pointer s this ?i = Some c" and c0: "c \<noteq> nullptr"
    and l: "leaf d1 ds s c addr = Some (p, s')"
    by (auto simp: Let_def split: bind_splits if_splits)
  from gp obtain ps where hl: "heap s this = Some (Level ps)" and i: "?i < length ps" and c: "ps ! ?i = c"
    unfolding get_pointer_Some by blast
  have "p \<in> nodes (heap s) d1 ds c"
    using l Cons.prems(2) by (rule Cons.IH)
  then show ?case
    using nodes_child [where h = "heap s" and this = this, OF hl i] c0 c by blast
qed

lemma path_present_leaf:
  "path_present d0 ds s this addr \<Longrightarrow>
   leaf_for_write d0 ds s this addr = leaf d0 ds s this addr \<and>
   (\<exists>p. leaf d0 ds s this addr = Some (p, s))"
proof (induction ds arbitrary: d0 this)
  case Nil
  show ?case by simp
next
  case (Cons d1 ds)
  let ?i = "slot_index d0 d1 ds addr"
  from Cons.prems obtain c where gp: "get_pointer s this ?i = Some c" and c0: "c \<noteq> nullptr"
    and pp: "path_present d1 ds s c addr"
    by (auto split: option.splits)
  from Cons.IH [OF pp] gp c0 show ?case by (simp add: Let_def)
qed

lemma leaf_path_present:
  "leaf d0 ds s this addr = Some (p, s') \<Longrightarrow> p \<noteq> nullptr \<Longrightarrow> path_present d0 ds s this addr"
proof (induction ds arbitrary: d0 this)
  case Nil
  show ?case by simp
next
  case (Cons d1 ds)
  let ?i = "slot_index d0 d1 ds addr"
  from Cons.prems obtain c where gp: "get_pointer s this ?i = Some c" and c0: "c \<noteq> nullptr"
    and l: "leaf d1 ds s c addr = Some (p, s')"
    by (auto simp: Let_def split: bind_splits if_splits)
  from Cons.IH [OF l Cons.prems(2)] gp c0 show ?case by simp
qed

lemma Union_slots:
  "(\<Union>c \<in> set ps - {nullptr}. f c) = (\<Union>k \<in> {k. k < length ps \<and> ps ! k \<noteq> nullptr}. f (ps ! k))"
proof (rule set_eqI, rule iffI)
  fix q assume "q \<in> (\<Union>c \<in> set ps - {nullptr}. f c)"
  then obtain c where "c \<in> set ps" "c \<noteq> nullptr" "q \<in> f c" by auto
  then obtain k where "k < length ps" "ps ! k = c" by (auto simp: in_set_conv_nth)
  with \<open>c \<noteq> nullptr\<close> \<open>q \<in> f c\<close> show "q \<in> (\<Union>k \<in> {k. k < length ps \<and> ps ! k \<noteq> nullptr}. f (ps ! k))"
    by auto
next
  fix q assume "q \<in> (\<Union>k \<in> {k. k < length ps \<and> ps ! k \<noteq> nullptr}. f (ps ! k))"
  then obtain k where "k < length ps" "ps ! k \<noteq> nullptr" "q \<in> f (ps ! k)" by auto
  then have "ps ! k \<in> set ps - {nullptr}" by simp
  with \<open>q \<in> f (ps ! k)\<close> show "q \<in> (\<Union>c \<in> set ps - {nullptr}. f c)" by blast
qed


lemma tree_update_slot:
  assumes hl: "h this = Some (Level ps)"
    and t: "tree h d0 (d1 # ds) this"
    and i: "i < length ps"
    and hl': "h' this = Some (Level (ps[i := c]))"
    and c0: "c \<noteq> nullptr"
    and tc: "tree h' d1 ds c"
    and old: "old = (if ps ! i = nullptr then {} else nodes h d1 ds (ps ! i))"
    and others: "\<And>q. q \<in> nodes h d0 (d1 # ds) this \<Longrightarrow> q \<noteq> this \<Longrightarrow> q \<notin> old \<Longrightarrow> h' q = h q"
    and nc: "nodes h' d1 ds c \<inter> (nodes h d0 (d1 # ds) this - old) = {}"
  shows "tree h' d0 (d1 # ds) this \<and>
         nodes h' d0 (d1 # ds) this = (nodes h d0 (d1 # ds) this - old) \<union> nodes h' d1 ds c"
proof -
  let ?N = "nodes h d0 (d1 # ds) this"
  let ?ps' = "ps[i := c]"
  from t hl have len: "length ps = nslots d0"
    and ch: "\<And>k. k < length ps \<Longrightarrow> ps ! k \<noteq> nullptr \<Longrightarrow>
               tree h d1 ds (ps ! k) \<and> this \<notin> nodes h d1 ds (ps ! k)"
    and dj: "\<And>k j. k < length ps \<Longrightarrow> ps ! k \<noteq> nullptr \<Longrightarrow> j < length ps \<Longrightarrow> j \<noteq> k \<Longrightarrow>
               ps ! j \<noteq> nullptr \<Longrightarrow> nodes h d1 ds (ps ! k) \<inter> nodes h d1 ds (ps ! j) = {}"
    by (simp_all add: tree_Level [where h = h and this = this])
  have N: "?N = insert this (\<Union>k \<in> {k. k < length ps \<and> ps ! k \<noteq> nullptr}. nodes h d1 ds (ps ! k))"
    unfolding nodes_Level [where h = h and this = this, OF hl] Union_slots ..
  have this_old: "this \<notin> old"
    using ch [OF i] old by (auto split: if_splits)
  have sub: "nodes h d1 ds (ps ! k) \<subseteq> ?N - old - {this}"
    if k: "k < length ps" "ps ! k \<noteq> nullptr" "k \<noteq> i" for k
  proof -
    have a: "nodes h d1 ds (ps ! k) \<subseteq> ?N" using N k by blast
    have b: "this \<notin> nodes h d1 ds (ps ! k)" using ch [OF k(1) k(2)] by simp
    have c: "nodes h d1 ds (ps ! k) \<inter> old = {}"
    proof (cases "ps ! i = nullptr")
      case True
      then show ?thesis using old by simp
    next
      case False
      then show ?thesis using dj [OF k(1) k(2) i] k(3) old by auto
    qed
    from a b c show ?thesis by blast
  qed
  have same: "h' q = h q" if k: "k < length ps" "ps ! k \<noteq> nullptr" "k \<noteq> i" "q \<in> nodes h d1 ds (ps ! k)" for k q
  proof -
    from sub [OF k(1) k(2) k(3)] k(4) have "q \<in> ?N" "q \<noteq> this" "q \<notin> old" by auto
    then show ?thesis by (rule others)
  qed
  have n_same: "nodes h' d1 ds (ps ! k) = nodes h d1 ds (ps ! k)"
    if k: "k < length ps" "ps ! k \<noteq> nullptr" "k \<noteq> i" for k
    by (rule nodes_frame) (rule same [OF k])
  have t_same: "tree h' d1 ds (ps ! k)"
    if k: "k < length ps" "ps ! k \<noteq> nullptr" "k \<noteq> i" for k
  proof -
    have "tree h' d1 ds (ps ! k) = tree h d1 ds (ps ! k)"
      by (rule tree_frame) (rule same [OF k])
    with ch [OF k(1) k(2)] show ?thesis by simp
  qed
  have this_c: "this \<notin> nodes h' d1 ds c"
    using nc this_old nodes_self [of this h d0 "d1 # ds"] by blast
  have c_k: "nodes h' d1 ds c \<inter> nodes h d1 ds (ps ! k) = {}"
    if k: "k < length ps" "ps ! k \<noteq> nullptr" "k \<noteq> i" for k
    using nc sub [OF k] by blast
  have nth': "?ps' ! k = (if k = i then c else ps ! k)" if "k < length ps" for k
    using that by (simp add: nth_list_update)
  have child': "tree h' d1 ds (?ps' ! k) \<and> this \<notin> nodes h' d1 ds (?ps' ! k) \<and>
        (\<forall>j < length ?ps'. j \<noteq> k \<longrightarrow> ?ps' ! j \<noteq> nullptr \<longrightarrow>
           nodes h' d1 ds (?ps' ! k) \<inter> nodes h' d1 ds (?ps' ! j) = {})"
    if k: "k < length ?ps'" "?ps' ! k \<noteq> nullptr" for k
  proof (cases "k = i")
    case True
    have "nodes h' d1 ds c \<inter> nodes h' d1 ds (?ps' ! j) = {}"
      if j: "j < length ?ps'" "j \<noteq> k" "?ps' ! j \<noteq> nullptr" for j
    proof -
      from j True have j': "j < length ps" "ps ! j \<noteq> nullptr" "j \<noteq> i" "?ps' ! j = ps ! j"
        by (simp_all add: nth_list_update)
      show ?thesis using c_k [OF j'(1-3)] n_same [OF j'(1-3)] j'(4) by simp
    qed
    with True tc this_c i show ?thesis by simp
  next
    case False
    with k have k': "k < length ps" "ps ! k \<noteq> nullptr" "k \<noteq> i" "?ps' ! k = ps ! k"
      by (simp_all add: nth_list_update)
    have "nodes h' d1 ds (ps ! k) \<inter> nodes h' d1 ds (?ps' ! j) = {}"
      if j: "j < length ?ps'" "j \<noteq> k" "?ps' ! j \<noteq> nullptr" for j
    proof (cases "j = i")
      case True
      then have "?ps' ! j = c" using i by simp
      then show ?thesis using c_k [OF k'(1-3)] n_same [OF k'(1-3)] by auto
    next
      case False
      with j have j': "j < length ps" "ps ! j \<noteq> nullptr" "j \<noteq> i" "?ps' ! j = ps ! j"
        by (simp_all add: nth_list_update)
      show ?thesis
        using dj [OF k'(1) k'(2) j'(1) j(2) j'(2)] n_same [OF k'(1-3)] n_same [OF j'(1-3)] j'(4)
        by simp
    qed
    with t_same [OF k'(1-3)] ch [OF k'(1) k'(2)] n_same [OF k'(1-3)] k'(4) show ?thesis by simp
  qed
  have tr: "tree h' d0 (d1 # ds) this"
    unfolding tree_Level [where h = h' and this = this, OF hl'] using len child' by simp
  have N': "nodes h' d0 (d1 # ds) this =
      insert this (\<Union>k \<in> {k. k < length ps \<and> ?ps' ! k \<noteq> nullptr}. nodes h' d1 ds (?ps' ! k))"
    unfolding nodes_Level [where h = h' and this = this, OF hl'] Union_slots by simp
  have split': "{k. k < length ps \<and> ?ps' ! k \<noteq> nullptr} =
      insert i {k. k < length ps \<and> ps ! k \<noteq> nullptr \<and> k \<noteq> i}"
    using i c0 by (auto simp: nth_list_update)
  have U': "(\<Union>k \<in> {k. k < length ps \<and> ?ps' ! k \<noteq> nullptr}. nodes h' d1 ds (?ps' ! k)) =
      nodes h' d1 ds c \<union> (\<Union>k \<in> {k. k < length ps \<and> ps ! k \<noteq> nullptr \<and> k \<noteq> i}. nodes h d1 ds (ps ! k))"
    unfolding split' using i n_same by (auto simp: nth_list_update)
  have rest: "?N - old = insert this (\<Union>k \<in> {k. k < length ps \<and> ps ! k \<noteq> nullptr \<and> k \<noteq> i}. nodes h d1 ds (ps ! k))"
  proof (rule set_eqI, rule iffI)
    fix q assume q: "q \<in> ?N - old"
    show "q \<in> insert this (\<Union>k \<in> {k. k < length ps \<and> ps ! k \<noteq> nullptr \<and> k \<noteq> i}. nodes h d1 ds (ps ! k))"
    proof (cases "q = this")
      case True then show ?thesis by simp
    next
      case False
      with q N obtain k where k: "k < length ps" "ps ! k \<noteq> nullptr" "q \<in> nodes h d1 ds (ps ! k)" by auto
      have "k \<noteq> i" using q k old by auto
      with k show ?thesis by blast
    qed
  next
    fix q assume "q \<in> insert this (\<Union>k \<in> {k. k < length ps \<and> ps ! k \<noteq> nullptr \<and> k \<noteq> i}. nodes h d1 ds (ps ! k))"
    then show "q \<in> ?N - old"
      using sub this_old nodes_self [of this h d0 "d1 # ds"] by auto
  qed
  have "nodes h' d0 (d1 # ds) this = (?N - old) \<union> nodes h' d1 ds c"
    unfolding N' U' rest by blast
  with tr show ?thesis by simp
qed

section \<open>Construction\<close>

lemma for_loop_set_pointer:
  "heap s m = Some (Level ps) \<Longrightarrow> \<forall>i \<in> set is. i < length ps \<Longrightarrow>
   for_loop is (\<lambda>i. set_pointer m i v) s =
     Some (s\<lparr>heap := (heap s)(m \<mapsto> Level (fold (\<lambda>i ps. ps[i := v]) is ps))\<rparr>)"
proof (induction "is" arbitrary: s ps)
  case Nil
  then have "(heap s)(m \<mapsto> Level ps) = heap s" by (simp only: fun_upd_idem)
  then show ?case by simp
next
  case (Cons i "is")
  define s1 where "s1 = s\<lparr>heap := (heap s)(m \<mapsto> Level (ps[i := v]))\<rparr>"
  have step: "set_pointer m i v s = Some s1"
    using Cons.prems by (simp add: set_pointer_def s1_def)
  have h1: "heap s1 m = Some (Level (ps[i := v]))" by (simp add: s1_def)
  have "\<forall>k \<in> set is. k < length (ps[i := v])" using Cons.prems(2) by simp
  with h1 have "for_loop is (\<lambda>i. set_pointer m i v) s1 =
     Some (s1\<lparr>heap := (heap s1)(m \<mapsto> Level (fold (\<lambda>i ps. ps[i := v]) is (ps[i := v])))\<rparr>)"
    by (rule Cons.IH)
  moreover have "s1\<lparr>heap := (heap s1)(m \<mapsto> Level (fold (\<lambda>i ps. ps[i := v]) is (ps[i := v])))\<rparr> =
     s\<lparr>heap := (heap s)(m \<mapsto> Level (fold (\<lambda>i ps. ps[i := v]) (i # is) ps))\<rparr>"
    by (simp add: s1_def)
  ultimately have "for_loop is (\<lambda>i. set_pointer m i v) s1 =
     Some (s\<lparr>heap := (heap s)(m \<mapsto> Level (fold (\<lambda>i ps. ps[i := v]) (i # is) ps))\<rparr>)"
    by (simp only:)
  then show ?case
    by (simp only: for_loop.simps step option.case)
qed

lemma fold_list_update_nth:
  "j < length ps \<Longrightarrow>
   fold (\<lambda>i ps. ps[i := v]) is ps ! j = (if j \<in> set is then v else ps ! j)"
  by (induction "is" arbitrary: ps) (auto simp: nth_list_update)

lemma fold_list_update_length:
  "length (fold (\<lambda>i ps. ps[i := v]) is ps) = length ps"
  by (induction "is" arbitrary: ps) auto

lemma fold_list_update_all:
  assumes "length ps = n"
  shows "fold (\<lambda>i ps. ps[i := v]) [0..<n] ps = replicate n v"
proof (rule nth_equalityI)
  show "length (fold (\<lambda>i ps. ps[i := v]) [0..<n] ps) = length (replicate n v)"
    using assms by (simp add: fold_list_update_length)
next
  fix j assume "j < length (fold (\<lambda>i ps. ps[i := v]) [0..<n] ps)"
  then have j: "j < n" using assms by (simp add: fold_list_update_length)
  then have "fold (\<lambda>i ps. ps[i := v]) [0..<n] ps ! j = v"
    using assms by (simp add: fold_list_update_nth)
  with j show "fold (\<lambda>i ps. ps[i := v]) [0..<n] ps ! j = replicate n v ! j" by simp
qed


lemma constructAt_Level:
  assumes "heap s m = Some (Level ps)" "length ps = nslots d0"
  shows "constructAt d0 (d1 # ds) m s =
         Some (s\<lparr>heap := (heap s)(m \<mapsto> Level (replicate (nslots d0) nullptr))\<rparr>)"
proof -
  have "\<forall>i \<in> set [0..<nslots d0]. i < length ps" using assms(2) by simp
  from for_loop_set_pointer [OF assms(1) this, of nullptr]
  show ?thesis
    by (simp only: constructAt.simps fold_list_update_all [OF assms(2)])
qed

lemma tree_blank:
  "h m = Some (Level (replicate (nslots d0) nullptr)) \<Longrightarrow>
   tree h d0 (d1 # ds) m \<and> nodes h d0 (d1 # ds) m = {m}"
proof -
  assume hl: "h m = Some (Level (replicate (nslots d0) nullptr))"
  have e: "set (replicate (nslots d0) nullptr) - {nullptr} = {}" by auto
  have n: "nodes h d0 (d1 # ds) m = {m}"
    unfolding nodes_Level [where h = h and this = m, OF hl] e by simp
  have t: "tree h d0 (d1 # ds) m"
    unfolding tree_Level [where h = h and this = m, OF hl] by simp
  from n t show ?thesis by simp
qed

lemma constructAt_raw:
  assumes "heap s m = Some (raw_obj d0 ds j)"
  shows "\<exists>s'. constructAt d0 ds m s = Some s' \<and> brk s' = brk s \<and> junk s' = junk s \<and>
           (\<forall>q. q \<noteq> m \<longrightarrow> heap s' q = heap s q) \<and>
           tree (heap s') d0 ds m \<and> nodes (heap s') d0 ds m = {m} \<and>
           trace s' = trace s @ (if ds = [] then [Construct m] else [])"
proof (cases ds)
  case Nil
  with assms show ?thesis by (simp add: Leaf_construct_def)
next
  case (Cons d1 ds')
  from assms Cons have hl: "heap s m = Some (Level (map j [0..<nslots d0]))" by simp
  define s' where "s' = s\<lparr>heap := (heap s)(m \<mapsto> Level (replicate (nslots d0) nullptr))\<rparr>"
  have "constructAt d0 (d1 # ds') m s = Some s'"
    unfolding s'_def using hl by (rule constructAt_Level) simp
  then have c: "constructAt d0 ds m s = Some s'" using Cons by simp
  have hl': "heap s' m = Some (Level (replicate (nslots d0) nullptr))" by (simp add: s'_def)
  have "tree (heap s') d0 ds m \<and> nodes (heap s') d0 ds m = {m}"
    unfolding Cons using hl' by (rule tree_blank)
  moreover have "brk s' = brk s" "junk s' = junk s" "trace s' = trace s"
    "\<forall>q. q \<noteq> m \<longrightarrow> heap s' q = heap s q"
    by (simp_all add: s'_def)
  ultimately show ?thesis using c Cons by simp
qed

text \<open>
  The constructor, run on storage of the right shape with any contents, leaves a
  well-formed map that consists of the root alone.
\<close>

lemma ShadowMap_new_wf:
  assumes "valid_dims d0 ds" and "this \<noteq> nullptr" and "this \<le> brk s"
    and "heap s this = Some ob"
    and "case ob of Level ps \<Rightarrow> ds \<noteq> [] \<and> length ps = nslots d0 | Term l \<Rightarrow> ds = []"
  shows "\<exists>s'. ShadowMap_new d0 ds this s = Some s' \<and> wf_map d0 ds s' this \<and>
           nodes (heap s') d0 ds this = {this} \<and> brk s' = brk s"
proof (cases ob)
  case (Term l)
  with assms show ?thesis
    by (simp add: ShadowMap_new_def Leaf_construct_def wf_map_def)
next
  case (Level ps)
  with assms(5) obtain d1 ds' where ds: "ds = d1 # ds'" and len: "length ps = nslots d0"
    by (cases ds) auto
  define s' where "s' = s\<lparr>heap := (heap s)(this \<mapsto> Level (replicate (nslots d0) nullptr))\<rparr>"
  have hl: "heap s this = Some (Level ps)" using assms(4) Level by simp
  have new: "ShadowMap_new d0 ds this s = Some s'"
    unfolding ShadowMap_new_def s'_def ds using hl len by (rule constructAt_Level)
  have hl': "heap s' this = Some (Level (replicate (nslots d0) nullptr))" by (simp add: s'_def)
  have "tree (heap s') d0 ds this \<and> nodes (heap s') d0 ds this = {this}"
    unfolding ds using hl' by (rule tree_blank)
  moreover have "brk s' = brk s" by (simp add: s'_def)
  ultimately show ?thesis using new assms(1,2,3) by (simp add: wf_map_def)
qed


section \<open>The write-triggering lookup on a well-formed map\<close>

lemma constructed_append [simp]: "constructed (xs @ ys) = constructed xs @ constructed ys"
  by (induction xs rule: constructed.induct) simp_all

lemma keeps_refl [simp]: "keeps a a"
  by (simp add: keeps_def split: option.splits obj.splits)

lemma keeps_trans: "keeps a b \<Longrightarrow> keeps b c \<Longrightarrow> keeps a c"
  by (auto simp: keeps_def split: option.splits obj.splits)

lemma keeps_update:
  "i < length ps \<Longrightarrow> ps ! i = nullptr \<Longrightarrow> keeps (Some (Level ps)) (Some (Level (ps[i := c])))"
  by (auto simp: keeps_def nth_list_update)

lemma grows_refl: "tree (heap s) d0 ds this \<Longrightarrow> grows d0 ds this s s"
  by (simp add: grows_def)

lemma leaf_keeps:
  "(\<And>q. q \<in> nodes (heap s) d0 ds this \<Longrightarrow> keeps (heap s q) (heap s' q)) \<Longrightarrow>
   leaf d0 ds s this addr = Some (p, s) \<Longrightarrow> p \<noteq> nullptr \<Longrightarrow>
   leaf d0 ds s' this addr = Some (p, s')"
proof (induction ds arbitrary: d0 this)
  case Nil
  then show ?case by simp
next
  case (Cons d1 ds)
  let ?i = "slot_index d0 d1 ds addr"
  from Cons.prems(2,3) obtain c where gp: "get_pointer s this ?i = Some c" and c0: "c \<noteq> nullptr"
    and l: "leaf d1 ds s c addr = Some (p, s)"
    by (auto simp: Let_def split: bind_splits if_splits)
  from gp obtain ps where hl: "heap s this = Some (Level ps)" and i: "?i < length ps" and c: "ps ! ?i = c"
    unfolding get_pointer_Some by blast
  have "keeps (heap s this) (heap s' this)"
    by (rule Cons.prems(1)) (rule nodes_self)
  with hl i c c0 obtain ps' where hl': "heap s' this = Some (Level ps')" and "?i < length ps'" "ps' ! ?i = c"
    by (auto simp: keeps_def split: option.splits obj.splits)
  then have gp': "get_pointer s' this ?i = Some c" by (simp add: get_pointer_def)
  have "leaf d1 ds s' c addr = Some (p, s')"
  proof (rule Cons.IH [OF _ l Cons.prems(3)])
    fix q assume "q \<in> nodes (heap s) d1 ds c"
    then have "q \<in> nodes (heap s) d0 (d1 # ds) this"
      using nodes_child [where h = "heap s" and this = this, OF hl i] c0 c by blast
    then show "keeps (heap s q) (heap s' q)" by (rule Cons.prems(1))
  qed
  with gp' c0 show ?case by (simp add: Let_def)
qed

lemma lfw_main:
  assumes "tree (heap s) d0 ds this"
    and "\<forall>q \<in> nodes (heap s) d0 ds this. q \<le> brk s"
    and "valid_dims d0 ds"
  shows "\<exists>p s'. leaf_for_write d0 ds s this addr = Some (p, s') \<and>
           leaf d0 ds s' this addr = Some (p, s') \<and> p \<in> nodes (heap s') d0 ds this \<and>
           grows d0 ds this s s'"
  using assms
proof (induction ds arbitrary: d0 this s)
  case Nil
  then show ?case by (simp add: grows_def)
next
  case (Cons d1 ds)
  let ?N = "nodes (heap s) d0 (d1 # ds) this"
  let ?i = "slot_index d0 d1 ds addr"
  from Cons.prems(1) obtain ps where hl: "heap s this = Some (Level ps)"
    and len: "length ps = nslots d0"
    using tree_LevelD by blast
  have i: "?i < length ps"
    using len slot_index_less [OF valid_dims_d0 [OF Cons.prems(3)]] by simp
  have gp: "get_pointer s this ?i = Some (ps ! ?i)"
    using hl i by (rule get_pointer_Level)
  have vl: "valid_dims d1 ds" using Cons.prems(3) by (rule valid_dims_lower)
  have this_b: "this \<le> brk s" using Cons.prems(2) nodes_self by blast
  show ?case
  proof (cases "ps ! ?i = nullptr")
    case False
    let ?c = "ps ! ?i"
    let ?old = "nodes (heap s) d1 ds ?c"
    have sub: "?old \<subseteq> ?N"
      using nodes_child [where h = "heap s" and this = this, OF hl i False] .
    have tc: "tree (heap s) d1 ds ?c" and this_c: "this \<notin> ?old"
      using Cons.prems(1) i False
      unfolding tree_Level [where h = "heap s" and this = this, OF hl] by blast+
    have bc: "\<forall>q \<in> ?old. q \<le> brk s" using sub Cons.prems(2) by blast
    from Cons.IH [OF tc bc vl] obtain p s' where
      w: "leaf_for_write d1 ds s ?c addr = Some (p, s')"
      and r: "leaf d1 ds s' ?c addr = Some (p, s')"
      and pn: "p \<in> nodes (heap s') d1 ds ?c"
      and g: "grows d1 ds ?c s s'"
      by blast
    from g have t': "tree (heap s') d1 ds ?c" and bk: "brk s \<le> brk s'" and jk: "junk s' = junk s"
      and n': "nodes (heap s') d1 ds ?c = ?old \<union> {brk s <.. brk s'}"
      and fr: "\<And>q. q \<le> brk s \<Longrightarrow> q \<notin> ?old \<Longrightarrow> heap s' q = heap s q"
      and kp: "\<And>q. q \<in> ?old \<Longrightarrow> keeps (heap s q) (heap s' q)"
      unfolding grows_def by blast+
    from g obtain evs where tr: "trace s' = trace s @ evs" "distinct (constructed evs)"
      "set (constructed evs) \<subseteq> {brk s <.. brk s'}"
      unfolding grows_def by blast
    have "heap s' this = heap s this" using this_b this_c by (rule fr)
    then have hl': "heap s' this = Some (Level (ps[?i := ?c]))" using hl by simp
    have asm: "tree (heap s') d0 (d1 # ds) this \<and>
        nodes (heap s') d0 (d1 # ds) this = (?N - ?old) \<union> nodes (heap s') d1 ds ?c"
    proof (rule tree_update_slot [where h = "heap s" and h' = "heap s'" and old = ?old,
          OF hl Cons.prems(1) i hl' False t'])
      show "?old = (if ps ! ?i = nullptr then {} else ?old)" using False by simp
    next
      fix q assume "q \<in> ?N" "q \<noteq> this" "q \<notin> ?old"
      then show "heap s' q = heap s q" using Cons.prems(2) fr by blast
    next
      show "nodes (heap s') d1 ds ?c \<inter> (?N - ?old) = {}"
        unfolding n' using Cons.prems(2) by auto
    qed
    have N': "nodes (heap s') d0 (d1 # ds) this = ?N \<union> {brk s <.. brk s'}"
      using asm n' sub by blast
    have gp': "get_pointer s' this ?i = Some ?c"
      using hl' i by (simp add: get_pointer_def)
    have W: "leaf_for_write d0 (d1 # ds) s this addr = Some (p, s')"
      using gp False w by (simp add: Let_def)
    have R: "leaf d0 (d1 # ds) s' this addr = Some (p, s')"
      using gp' False r by (simp add: Let_def)
    have P: "p \<in> nodes (heap s') d0 (d1 # ds) this"
      using asm pn by blast
    have F: "heap s' q = heap s q" if "q \<le> brk s" "q \<notin> ?N" for q
      using that sub fr by blast
    have K: "keeps (heap s q) (heap s' q)" if "q \<in> ?N" for q
    proof (cases "q \<in> ?old")
      case True
      then show ?thesis by (rule kp)
    next
      case False
      have "q \<le> brk s" using that Cons.prems(2) by blast
      then have "heap s' q = heap s q" using False by (rule fr)
      then show ?thesis by simp
    qed
    have G: "grows d0 (d1 # ds) this s s'"
      unfolding grows_def using asm N' bk jk F K tr by blast
    from W R P G show ?thesis by blast
  next
    case True
    define p0 where "p0 = Suc (brk s)"
    define s1 where "s1 = s\<lparr>heap := (heap s)(p0 \<mapsto> raw_obj d1 ds (junk s)), brk := p0,
                trace := trace s @ [Malloc p0]\<rparr>"
    define s2 where "s2 = s1\<lparr>heap := (heap s1)(this \<mapsto> Level (ps[?i := p0]))\<rparr>"
    have m: "shadow_malloc d1 ds s = (p0, s1)"
      by (simp add: shadow_malloc_def p0_def s1_def Let_def)
    have ne: "this \<noteq> p0" using this_b by (simp add: p0_def)
    have h1: "heap s1 this = Some (Level ps)" using hl ne by (simp add: s1_def)
    have sp: "set_pointer this ?i p0 s1 = Some s2"
      using h1 i by (simp add: set_pointer_def s2_def)
    have h2: "heap s2 this = Some (Level (ps[?i := p0]))" by (simp add: s2_def)
    have gp2: "get_pointer s2 this ?i = Some p0"
      using h2 i by (simp add: get_pointer_def)
    have raw: "heap s2 p0 = Some (raw_obj d1 ds (junk s))"
      using ne by (simp add: s2_def s1_def)
    from constructAt_raw [OF raw] obtain s3 where
      c3: "constructAt d1 ds p0 s2 = Some s3" and b3: "brk s3 = brk s2" and j3: "junk s3 = junk s2"
      and f3: "\<And>q. q \<noteq> p0 \<Longrightarrow> heap s3 q = heap s2 q"
      and t3: "tree (heap s3) d1 ds p0" and n3: "nodes (heap s3) d1 ds p0 = {p0}"
      and tr3: "trace s3 = trace s2 @ (if ds = [] then [Construct p0] else [])"
      by blast
    have b3': "brk s3 = p0" using b3 by (simp add: s2_def s1_def)
    have h3: "heap s3 this = Some (Level (ps[?i := p0]))" using f3 [OF ne] h2 by simp
    have gp3: "get_pointer s3 this ?i = Some p0"
      using h3 i by (simp add: get_pointer_def)
    have bc: "\<forall>q \<in> nodes (heap s3) d1 ds p0. q \<le> brk s3" using n3 b3' by simp
    from Cons.IH [OF t3 bc vl] obtain p s' where
      w: "leaf_for_write d1 ds s3 p0 addr = Some (p, s')"
      and r: "leaf d1 ds s' p0 addr = Some (p, s')"
      and pn: "p \<in> nodes (heap s') d1 ds p0"
      and g: "grows d1 ds p0 s3 s'"
      by blast
    from g have t': "tree (heap s') d1 ds p0" and bk: "p0 \<le> brk s'" and jk: "junk s' = junk s3"
      and n': "nodes (heap s') d1 ds p0 = {p0} \<union> {p0 <.. brk s'}"
      and fr: "\<And>q. q \<le> p0 \<Longrightarrow> q \<noteq> p0 \<Longrightarrow> heap s' q = heap s3 q"
      unfolding grows_def n3 b3' by blast+
    from g obtain evs where tr: "trace s' = trace s3 @ evs" "distinct (constructed evs)"
      "set (constructed evs) \<subseteq> {p0 <.. brk s'}"
      unfolding grows_def b3' by blast
    have old_same: "heap s' q = heap s q" if "q \<le> brk s" "q \<noteq> this" for q
    proof -
      have q: "q \<le> p0" "q \<noteq> p0" using that by (simp_all add: p0_def)
      have "heap s' q = heap s3 q" using q by (rule fr)
      also have "\<dots> = heap s2 q" using q(2) by (rule f3)
      also have "\<dots> = heap s q" using q(2) that(2) by (simp add: s2_def s1_def)
      finally show ?thesis .
    qed
    have "heap s' this = heap s3 this" using ne this_b by (intro fr) (simp_all add: p0_def)
    then have hl': "heap s' this = Some (Level (ps[?i := p0]))" using h3 by simp
    have p0n: "p0 \<noteq> nullptr" by (simp add: p0_def)
    have fresh: "{p0} \<union> {p0 <.. brk s'} = {brk s <.. brk s'}"
      using bk by (auto simp: p0_def)
    have asm: "tree (heap s') d0 (d1 # ds) this \<and>
        nodes (heap s') d0 (d1 # ds) this = (?N - {}) \<union> nodes (heap s') d1 ds p0"
    proof (rule tree_update_slot [where h = "heap s" and h' = "heap s'" and old = "{}",
          OF hl Cons.prems(1) i hl' p0n t'])
      show "{} = (if ps ! ?i = nullptr then {} else nodes (heap s) d1 ds (ps ! ?i))"
        using True by simp
    next
      fix q assume "q \<in> ?N" "q \<noteq> this" "q \<notin> {}"
      then show "heap s' q = heap s q" using Cons.prems(2) old_same by blast
    next
      show "nodes (heap s') d1 ds p0 \<inter> (?N - {}) = {}"
        unfolding n' fresh using Cons.prems(2) by auto
    qed
    have N': "nodes (heap s') d0 (d1 # ds) this = ?N \<union> {brk s <.. brk s'}"
      using asm unfolding n' fresh by (simp only: Diff_empty)
    have gp': "get_pointer s' this ?i = Some p0"
      using hl' i by (simp add: get_pointer_def)
    have W: "leaf_for_write d0 (d1 # ds) s this addr = Some (p, s')"
      using gp True m sp gp2 c3 gp3 w by (simp add: Let_def)
    have R: "leaf d0 (d1 # ds) s' this addr = Some (p, s')"
      using gp' p0n r by (simp add: Let_def)
    have P: "p \<in> nodes (heap s') d0 (d1 # ds) this"
      using asm pn by blast
    have F: "heap s' q = heap s q" if "q \<le> brk s" "q \<notin> ?N" for q
      using that nodes_self [of this "heap s" d0 "d1 # ds"] old_same by blast
    have bk': "brk s \<le> brk s'" using bk by (simp add: p0_def)
    have jk': "junk s' = junk s" using jk j3 by (simp add: s2_def s1_def)
    define evs' where "evs' = [Malloc p0] @ (if ds = [] then [Construct p0] else []) @ evs"
    have T1: "trace s' = trace s @ evs'"
      using tr(1) tr3 by (simp add: evs'_def s2_def s1_def)
    have T2: "distinct (constructed evs')"
      using tr(2) tr(3) by (auto simp: evs'_def)
    have T3: "set (constructed evs') \<subseteq> {brk s <.. brk s'}"
      using tr(3) bk by (auto simp: evs'_def p0_def)
    have K: "keeps (heap s q) (heap s' q)" if "q \<in> ?N" for q
    proof (cases "q = this")
      case True
      show ?thesis unfolding True hl hl' using i \<open>ps ! ?i = nullptr\<close> by (rule keeps_update)
    next
      case False
      have "q \<le> brk s" using that Cons.prems(2) by blast
      then have "heap s' q = heap s q" using False by (rule old_same)
      then show ?thesis by simp
    qed
    have G: "grows d0 (d1 # ds) this s s'"
      unfolding grows_def using asm N' bk' jk' F K T1 T2 T3 by blast
    from W R P G show ?thesis by blast
  qed
qed

lemma nodes_nonnull: "this \<noteq> nullptr \<Longrightarrow> nullptr \<notin> nodes h d0 ds this"
proof (induction ds arbitrary: d0 this)
  case Nil
  then show ?case by simp
next
  case (Cons d1 ds)
  show ?case
  proof (cases "\<exists>ps. h this = Some (Level ps)")
    case False
    with Cons.prems show ?thesis by (auto split: option.splits obj.splits)
  next
    case True
    then obtain ps where hl: "h this = Some (Level ps)" by blast
    show ?thesis
      unfolding nodes_Level [where h = h and this = this, OF hl]
      using Cons.prems Cons.IH by auto
  qed
qed

lemma grows_trans:
  assumes "grows d0 ds this s s'" and "grows d0 ds this s' s''"
  shows "grows d0 ds this s s''"
proof -
  let ?N = "nodes (heap s) d0 ds this"
  from assms(1) have bk: "brk s \<le> brk s'" and jk: "junk s' = junk s"
    and n: "nodes (heap s') d0 ds this = ?N \<union> {brk s <.. brk s'}"
    and fr: "\<And>q. q \<le> brk s \<Longrightarrow> q \<notin> ?N \<Longrightarrow> heap s' q = heap s q"
    and kp: "\<And>q. q \<in> ?N \<Longrightarrow> keeps (heap s q) (heap s' q)"
    unfolding grows_def by blast+
  from assms(1) obtain evs where tr: "trace s' = trace s @ evs" "distinct (constructed evs)"
    "set (constructed evs) \<subseteq> {brk s <.. brk s'}"
    unfolding grows_def by blast
  from assms(2) have t': "tree (heap s'') d0 ds this" and bk': "brk s' \<le> brk s''"
    and jk': "junk s'' = junk s'"
    and n': "nodes (heap s'') d0 ds this = nodes (heap s') d0 ds this \<union> {brk s' <.. brk s''}"
    and fr': "\<And>q. q \<le> brk s' \<Longrightarrow> q \<notin> nodes (heap s') d0 ds this \<Longrightarrow> heap s'' q = heap s' q"
    and kp': "\<And>q. q \<in> nodes (heap s') d0 ds this \<Longrightarrow> keeps (heap s' q) (heap s'' q)"
    unfolding grows_def by blast+
  from assms(2) obtain evs' where tr': "trace s'' = trace s' @ evs'" "distinct (constructed evs')"
    "set (constructed evs') \<subseteq> {brk s' <.. brk s''}"
    unfolding grows_def by blast
  have N: "nodes (heap s'') d0 ds this = ?N \<union> {brk s <.. brk s''}"
    unfolding n' n using bk bk' by auto
  have F: "heap s'' q = heap s q" if q: "q \<le> brk s" "q \<notin> ?N" for q
  proof -
    have "q \<le> brk s'" "q \<notin> nodes (heap s') d0 ds this" using q bk n by auto
    then have "heap s'' q = heap s' q" by (rule fr')
    with fr [OF q] show ?thesis by simp
  qed
  have K: "keeps (heap s q) (heap s'' q)" if q: "q \<in> ?N" for q
  proof -
    have "q \<in> nodes (heap s') d0 ds this" using q n by simp
    then have "keeps (heap s' q) (heap s'' q)" by (rule kp')
    with kp [OF q] show ?thesis by (rule keeps_trans)
  qed
  have T1: "trace s'' = trace s @ (evs @ evs')" using tr(1) tr'(1) by simp
  have "set (constructed evs) \<inter> set (constructed evs') = {}"
    using tr(3) tr'(3) by (fastforce simp: subset_iff)
  then have T2: "distinct (constructed (evs @ evs'))"
    using tr(2) tr'(2) by simp
  have T3: "set (constructed (evs @ evs')) \<subseteq> {brk s <.. brk s''}"
    using tr(3) tr'(3) bk bk' by (auto simp: subset_iff)
  show ?thesis
    unfolding grows_def using t' bk bk' jk jk' N F K T1 T2 T3
    by (metis (no_types, lifting) le_trans)
qed

lemma wf_map_grows:
  assumes "wf_map d0 ds s this" and "grows d0 ds this s s'"
  shows "wf_map d0 ds s' this"
proof -
  from assms(2) have "tree (heap s') d0 ds this" and bk: "brk s \<le> brk s'"
    and n: "nodes (heap s') d0 ds this = nodes (heap s) d0 ds this \<union> {brk s <.. brk s'}"
    unfolding grows_def by blast+
  moreover have "\<forall>q \<in> nodes (heap s') d0 ds this. q \<le> brk s'"
    unfolding n using assms(1) bk by (auto simp: wf_map_def)
  ultimately show ?thesis using assms(1) by (simp add: wf_map_def)
qed

lemma lfw_wf:
  assumes "wf_map d0 ds s this"
  shows "\<exists>p s'. leaf_for_write d0 ds s this addr = Some (p, s') \<and>
           leaf d0 ds s' this addr = Some (p, s') \<and> p \<noteq> nullptr \<and>
           grows d0 ds this s s' \<and> wf_map d0 ds s' this"
proof -
  from assms have t: "tree (heap s) d0 ds this" and b: "\<forall>q \<in> nodes (heap s) d0 ds this. q \<le> brk s"
    and v: "valid_dims d0 ds" and n0: "this \<noteq> nullptr"
    by (simp_all add: wf_map_def)
  from lfw_main [OF t b v] obtain p s' where
    w: "leaf_for_write d0 ds s this addr = Some (p, s')"
    and r: "leaf d0 ds s' this addr = Some (p, s')"
    and pn: "p \<in> nodes (heap s') d0 ds this"
    and g: "grows d0 ds this s s'"
    by blast
  have "p \<noteq> nullptr"
  proof
    assume "p = nullptr"
    with pn nodes_nonnull [OF n0, of "heap s'" d0 ds] show False by simp
  qed
  with w r g wf_map_grows [OF assms g] show ?thesis by blast
qed

lemma writes_wf:
  assumes "wf_map d0 ds s this"
  shows "\<exists>s'. writes d0 ds this addrs s = Some s' \<and> grows d0 ds this s s' \<and> wf_map d0 ds s' this"
  using assms
proof (induction addrs arbitrary: s)
  case Nil
  then show ?case by (simp add: grows_refl wf_map_def)
next
  case (Cons a addrs)
  from lfw_wf [OF Cons.prems] obtain p s1 where
    w: "leaf_for_write d0 ds s this a = Some (p, s1)"
    and g: "grows d0 ds this s s1" and wf1: "wf_map d0 ds s1 this"
    by blast
  from Cons.IH [OF wf1] obtain s' where
    ws: "writes d0 ds this addrs s1 = Some s'" and g': "grows d0 ds this s1 s'"
    and wf': "wf_map d0 ds s' this"
    by blast
  from w ws have "writes d0 ds this (a # addrs) s = Some s'" by simp
  with grows_trans [OF g g'] wf' show ?case by blast
qed

lemma writes_present:
  "\<forall>a \<in> set addrs. path_present d0 ds s this a \<Longrightarrow> writes d0 ds this addrs s = Some s"
proof (induction addrs)
  case Nil
  show ?case by simp
next
  case (Cons a addrs)
  then have "path_present d0 ds s this a" by simp
  from path_present_leaf [OF this] obtain p where "leaf_for_write d0 ds s this a = Some (p, s)"
    by auto
  with Cons show ?case by simp
qed

section \<open>The example states, and addresses that share a leaf\<close>

lemma wf_example_map: "wf_map 1 [1] example_map 1"
  by (simp add: example_map_def wf_map_def valid_dims_def nslots_def All_less_Suc less_Suc_eq)

lemma path_present_example: "path_present 1 [1] example_map 1 3"
  by (simp add: example_map_def get_pointer_def slot_index_def)

lemma path_present_nonnull:
  "path_present d0 ds s this addr \<Longrightarrow> this \<noteq> nullptr \<Longrightarrow>
   leaf d0 ds s this addr = Some (p, s') \<Longrightarrow> p \<noteq> nullptr"
proof (induction ds arbitrary: d0 this)
  case Nil
  then show ?case by simp
next
  case (Cons d1 ds)
  let ?i = "slot_index d0 d1 ds addr"
  from Cons.prems(1) obtain c where gp: "get_pointer s this ?i = Some c" and c0: "c \<noteq> nullptr"
    and pp: "path_present d1 ds s c addr"
    by (auto split: option.splits)
  from Cons.prems(3) gp c0 have "leaf d1 ds s c addr = Some (p, s')" by (simp add: Let_def)
  with pp c0 show ?case by (rule Cons.IH)
qed

lemma example_storage_heap: "heap example_storage 1 = Some (Level [5, 3])"
  by (simp add: example_storage_def)

lemma slot_index_eq_iff:
  "slot_index d0 d1 ds a = slot_index d0 d1 ds b \<longleftrightarrow>
   (\<forall>n. dimensions_sum d1 ds \<le> n \<and> n < dimensions_sum d1 ds + d0 \<longrightarrow> bit a n = bit b n)"
proof -
  let ?S = "dimensions_sum d1 ds"
  have m: "x AND (push_bit d0 1 - 1) = take_bit d0 x" for x :: "64 word"
    by (simp add: take_bit_eq_mask mask_eq_exp_minus_1)
  have "slot_index d0 d1 ds a = slot_index d0 d1 ds b \<longleftrightarrow>
        take_bit d0 (drop_bit ?S a) = take_bit d0 (drop_bit ?S b)"
    unfolding slot_index_def m by (rule word_unat_eq_iff [symmetric])
  also have "\<dots> \<longleftrightarrow> (\<forall>k. k < d0 \<longrightarrow> bit a (?S + k) = bit b (?S + k))"
  proof
    assume e: "take_bit d0 (drop_bit ?S a) = take_bit d0 (drop_bit ?S b)"
    show "\<forall>k. k < d0 \<longrightarrow> bit a (?S + k) = bit b (?S + k)"
    proof (intro allI impI)
      fix k assume k: "k < d0"
      have "bit (take_bit d0 (drop_bit ?S a)) k = bit (take_bit d0 (drop_bit ?S b)) k"
        using e by simp
      with k show "bit a (?S + k) = bit b (?S + k)"
        by (simp add: bit_take_bit_iff bit_drop_bit_eq)
    qed
  next
    assume h: "\<forall>k. k < d0 \<longrightarrow> bit a (?S + k) = bit b (?S + k)"
    show "take_bit d0 (drop_bit ?S a) = take_bit d0 (drop_bit ?S b)"
    proof (rule bit_eqI)
      fix k
      show "bit (take_bit d0 (drop_bit ?S a)) k = bit (take_bit d0 (drop_bit ?S b)) k"
        using h by (auto simp: bit_take_bit_iff bit_drop_bit_eq)
    qed
  qed
  also have "\<dots> \<longleftrightarrow> (\<forall>n. ?S \<le> n \<and> n < ?S + d0 \<longrightarrow> bit a n = bit b n)"
  proof
    assume h: "\<forall>k. k < d0 \<longrightarrow> bit a (?S + k) = bit b (?S + k)"
    show "\<forall>n. ?S \<le> n \<and> n < ?S + d0 \<longrightarrow> bit a n = bit b n"
    proof (intro allI impI)
      fix n assume n: "?S \<le> n \<and> n < ?S + d0"
      then have "n - ?S < d0" by linarith
      with h have "bit a (?S + (n - ?S)) = bit b (?S + (n - ?S))" by blast
      with n show "bit a n = bit b n" by simp
    qed
  next
    assume h: "\<forall>n. ?S \<le> n \<and> n < ?S + d0 \<longrightarrow> bit a n = bit b n"
    show "\<forall>k. k < d0 \<longrightarrow> bit a (?S + k) = bit b (?S + k)"
    proof (intro allI impI)
      fix k :: nat assume "k < d0"
      then have "?S \<le> ?S + k \<and> ?S + k < ?S + d0" by simp
      with h show "bit a (?S + k) = bit b (?S + k)" by blast
    qed
  qed
  finally show ?thesis .
qed

lemma last_le_dimensions_sum: "last (d0 # ds) \<le> dimensions_sum d0 ds"
  by (induction d0 ds rule: dimensions_sum.induct) auto

lemma leaf_same_prefix:
  assumes "\<forall>n. last (d0 # ds) \<le> n \<and> n < dimensions_sum d0 ds \<longrightarrow> bit a n = bit b n"
  shows "leaf d0 ds s this a = leaf d0 ds s this b"
  using assms
proof (induction ds arbitrary: d0 this)
  case Nil
  show ?case by simp
next
  case (Cons d1 ds)
  have l: "last (d0 # d1 # ds) = last (d1 # ds)" by simp
  have le: "last (d1 # ds) \<le> dimensions_sum d1 ds" by (rule last_le_dimensions_sum)
  have i: "slot_index d0 d1 ds a = slot_index d0 d1 ds b"
    unfolding slot_index_eq_iff using Cons.prems le by (auto simp: add.commute)
  have "\<forall>n. last (d1 # ds) \<le> n \<and> n < dimensions_sum d1 ds \<longrightarrow> bit a n = bit b n"
    using Cons.prems unfolding l by simp
  then have "leaf d1 ds s c a = leaf d1 ds s c b" for c
    by (rule Cons.IH)
  with i show ?case by (simp add: Let_def cong: if_cong)
qed

lemma leaf_injective:
  assumes "tree (heap s) d0 ds this"
    and "leaf d0 ds s this a = Some (p, s)" and "leaf d0 ds s this b = Some (p, s)"
    and "p \<noteq> nullptr"
  shows "\<forall>n. last (d0 # ds) \<le> n \<and> n < dimensions_sum d0 ds \<longrightarrow> bit a n = bit b n"
  using assms
proof (induction ds arbitrary: d0 this)
  case Nil
  show ?case by auto
next
  case (Cons d1 ds)
  let ?ia = "slot_index d0 d1 ds a" and ?ib = "slot_index d0 d1 ds b"
  from Cons.prems(2,4) obtain ca where gpa: "get_pointer s this ?ia = Some ca" and ca0: "ca \<noteq> nullptr"
    and la: "leaf d1 ds s ca a = Some (p, s)"
    by (auto simp: Let_def split: bind_splits if_splits)
  from Cons.prems(3,4) obtain cb where gpb: "get_pointer s this ?ib = Some cb" and cb0: "cb \<noteq> nullptr"
    and lb: "leaf d1 ds s cb b = Some (p, s)"
    by (auto simp: Let_def split: bind_splits if_splits)
  from gpa obtain ps where hl: "heap s this = Some (Level ps)" and ia: "?ia < length ps" and ca: "ps ! ?ia = ca"
    unfolding get_pointer_Some by blast
  from gpb hl have ib: "?ib < length ps" and cb: "ps ! ?ib = cb"
    unfolding get_pointer_Some by auto
  have pa: "p \<in> nodes (heap s) d1 ds ca" using la Cons.prems(4) by (rule leaf_in_nodes)
  have pb: "p \<in> nodes (heap s) d1 ds cb" using lb Cons.prems(4) by (rule leaf_in_nodes)
  have same: "?ia = ?ib"
  proof (rule ccontr)
    assume "?ia \<noteq> ?ib"
    then have "nodes (heap s) d1 ds (ps ! ?ia) \<inter> nodes (heap s) d1 ds (ps ! ?ib) = {}"
      using Cons.prems(1) ia ib ca cb ca0 cb0
      unfolding tree_Level [where h = "heap s" and this = this, OF hl] by metis
    with pa pb ca cb show False by blast
  qed
  then have cab: "cb = ca" using ca cb by simp
  have tc: "tree (heap s) d1 ds ca"
    using Cons.prems(1) ia ca ca0
    unfolding tree_Level [where h = "heap s" and this = this, OF hl] by blast
  have low: "\<forall>n. last (d1 # ds) \<le> n \<and> n < dimensions_sum d1 ds \<longrightarrow> bit a n = bit b n"
    using tc la lb [unfolded cab] Cons.prems(4) by (rule Cons.IH)
  have high: "\<forall>n. dimensions_sum d1 ds \<le> n \<and> n < dimensions_sum d1 ds + d0 \<longrightarrow> bit a n = bit b n"
    using same unfolding slot_index_eq_iff .
  show ?case
  proof (intro allI impI)
    fix n assume n: "last (d0 # d1 # ds) \<le> n \<and> n < dimensions_sum d0 (d1 # ds)"
    show "bit a n = bit b n"
    proof (cases "n < dimensions_sum d1 ds")
      case True
      with n low show ?thesis by simp
    next
      case False
      with n high show ?thesis by (simp add: add.commute)
    qed
  qed
qed

section \<open>The intra-leaf offset and the run length\<close>

text \<open>
  C7. \<^verbatim>\<open>index(addr)\<close> is \<open>addr mod 2 ^ Wn\<close> for the last width \<open>Wn\<close> (lemma \<open>index_eq\<close>), but
  \<^verbatim>\<open>contiguousElements(addr)\<close> is not always \<open>2 ^ Wn - index(addr)\<close>: the function returns the
  difference as an \<^verbatim>\<open>Address\<close> (lemma \<open>contiguousElements_eq\<close>), and \<open>2 ^ Wn\<close> has no place in
  an \<^verbatim>\<open>Address\<close> of \<open>Wn\<close> bits. For a
  single-level map of width 32 over \<^verbatim>\<open>unsigned int\<close> addresses, and for one of width 8 over
  \<^verbatim>\<open>unsigned char\<close> addresses, \<^verbatim>\<open>index(0)\<close> is 0 and \<^verbatim>\<open>contiguousElements(0)\<close> is 0, where
  \<open>2 ^ Wn - index(0)\<close> is \<open>2 ^ 32\<close> and \<open>2 ^ 8\<close>: the whole address space lies in the one leaf,
  and the function's documentation promises the maximal number of addresses from \<^verbatim>\<open>addr\<close> on
  that are stored contiguously.
\<close>

theorem contiguousElements_truncated:
  "index 32 [] (0 :: 32 word) = 0 \<and>
   contiguousElements 32 [] (0 :: 32 word) = 0 \<and>
   2 ^ last (32 # []) - unat (index 32 [] (0 :: 32 word)) = 4294967296 \<and>
   unat (contiguousElements 32 [] (0 :: 32 word)) \<noteq>
     2 ^ last (32 # []) - unat (index 32 [] (0 :: 32 word)) \<and>
   index 8 [] (0 :: 8 word) = 0 \<and>
   contiguousElements 8 [] (0 :: 8 word) = 0 \<and>
   2 ^ last (8 # []) - unat (index 8 [] (0 :: 8 word)) = 256 \<and>
   unat (contiguousElements 8 [] (0 :: 8 word)) \<noteq>
     2 ^ last (8 # []) - unat (index 8 [] (0 :: 8 word))"
  by simp

section \<open>The index of a level\<close>

text \<open>
  C8. The map of a level with width \<open>dimension0\<close> above the widths \<open>d1 # ds\<close> selects its
  child with the address shifted right by the sum of the widths below the level and masked
  with \<open>2 ^ dimension0 - 1\<close>, in \<^verbatim>\<open>leaf\<close> and in \<^verbatim>\<open>leaf_for_write\<close>; the descent calls the same
  function at \<open>d1\<close> and \<open>ds\<close>, so this is every level. For the widths (4, 4), the address
  0x13 has the top index 1, the offset 3 and 13 contiguous elements, the latter two with
  64-bit and with 8-bit addresses.
\<close>

theorem level_index:
  "slot_index dimension0 d1 ds addr =
     (unat addr div 2 ^ sum_list (d1 # ds)) mod 2 ^ dimension0 \<and>
   leaf dimension0 (d1 # ds) s this addr =
     do { pointer \<leftarrow> get_pointer s this
            ((unat addr div 2 ^ sum_list (d1 # ds)) mod 2 ^ dimension0);
          if pointer = nullptr then Some (nullptr, s) else leaf d1 ds s pointer addr } \<and>
   leaf_for_write dimension0 (d1 # ds) s this addr =
     (let index = (unat addr div 2 ^ sum_list (d1 # ds)) mod 2 ^ dimension0
      in do { pointer \<leftarrow> get_pointer s this index;
              if pointer = nullptr
              then do { s2 \<leftarrow> (case shadow_malloc d1 ds s of (p, s1) \<Rightarrow> set_pointer this index p s1);
                        q \<leftarrow> get_pointer s2 this index;
                        s3 \<leftarrow> constructAt d1 ds q s2;
                        r \<leftarrow> get_pointer s3 this index;
                        leaf_for_write d1 ds s3 r addr }
              else leaf_for_write d1 ds s pointer addr }) \<and>
   slot_index 4 4 [] 0x13 = 1 \<and>
   index 4 [4] (0x13 :: Address) = 3 \<and>
   contiguousElements 4 [4] (0x13 :: Address) = 13 \<and>
   index 4 [4] (0x13 :: 8 word) = 3 \<and>
   contiguousElements 4 [4] (0x13 :: 8 word) = 13"
proof -
  have a: "slot_index dimension0 d1 ds addr =
           (unat addr div 2 ^ sum_list (d1 # ds)) mod 2 ^ dimension0"
    by (simp only: slot_index_eq dimensions_sum_eq)
  have b: "slot_index 4 4 [] 0x13 = 1"
    by (simp add: slot_index_def)
  have c: "index 4 [4] (0x13 :: Address) = 3 \<and>
           contiguousElements 4 [4] (0x13 :: Address) = 13 \<and>
           index 4 [4] (0x13 :: 8 word) = 3 \<and>
           contiguousElements 4 [4] (0x13 :: 8 word) = 13"
    by simp
  show ?thesis
    unfolding leaf.simps leaf_for_write.simps Let_def a using b c by simp
qed

section \<open>Lookups\<close>

text \<open>
  C1. On a well-formed map, the write-triggering lookup \<^verbatim>\<open>leaf_for_write(A)\<close> returns a pointer
  \<open>p\<close> that is not null, and the read-only lookup \<^verbatim>\<open>leaf(A)\<close> on the state it leaves returns
  the same \<open>p\<close>. The map is well-formed again.
\<close>

theorem write_then_read:
  assumes "wf_map dimension0 ds s this"
  shows "\<exists>p s'. leaf_for_write dimension0 ds s this addr = Some (p, s') \<and>
           leaf dimension0 ds s' this addr = Some (p, s') \<and> p \<noteq> nullptr \<and>
           wf_map dimension0 ds s' this"
  using lfw_wf [OF assms, of addr] by blast

theorem write_then_read_witness:
  "wf_map 1 [1] example_map 1 \<and>
   (\<exists>p s'. leaf_for_write 1 [1] example_map 1 0 = Some (p, s') \<and>
      leaf 1 [1] s' 1 0 = Some (p, s') \<and> p \<noteq> nullptr \<and> wf_map 1 [1] s' 1)"
  using write_then_read [OF wf_example_map, of 0] wf_example_map by blast

text \<open>
  C2, as amended. For the storage of a map with two levels or more (an array of
  \<^verbatim>\<open>1ul << dimension0\<close> slots with any contents), the constructor returns, and on the map it
  leaves the read-only lookup returns \<^verbatim>\<open>nullptr\<close> for every address.
\<close>

theorem fresh_map_unmapped:
  assumes "heap s this = Some (Level ps)" and "length ps = nslots dimension0"
    and "dimension0 < 64"
  shows "\<exists>s'. ShadowMap_new dimension0 (d1 # ds) this s = Some s' \<and>
           (\<forall>addr. leaf dimension0 (d1 # ds) s' this addr = Some (nullptr, s'))"
proof -
  define s' where "s' = s\<lparr>heap := (heap s)(this \<mapsto> Level (replicate (nslots dimension0) nullptr))\<rparr>"
  have new: "ShadowMap_new dimension0 (d1 # ds) this s = Some s'"
    unfolding ShadowMap_new_def s'_def using assms(1,2) by (rule constructAt_Level)
  have hl: "heap s' this = Some (Level (replicate (nslots dimension0) nullptr))"
    by (simp add: s'_def)
  have "leaf dimension0 (d1 # ds) s' this addr = Some (nullptr, s')" for addr
  proof -
    have i: "slot_index dimension0 d1 ds addr < nslots dimension0"
      using assms(3) by (rule slot_index_less)
    then have "get_pointer s' this (slot_index dimension0 d1 ds addr) = Some nullptr"
      using hl by (simp add: get_pointer_def)
    then show ?thesis by (simp add: Let_def)
  qed
  with new show ?thesis by blast
qed

theorem fresh_map_unmapped_witness:
  "heap example_storage 1 = Some (Level [5, 3]) \<and> length [5, 3 :: ptr] = nslots 1 \<and> (1::nat) < 64 \<and>
   (\<exists>s'. ShadowMap_new 1 [1] 1 example_storage = Some s' \<and>
      (\<forall>addr. leaf 1 [1] s' 1 addr = Some (nullptr, s')))"
proof -
  have a: "length [5, 3 :: ptr] = nslots 1" by (simp add: nslots_def)
  have b: "(1::nat) < 64" by simp
  from fresh_map_unmapped [OF example_storage_heap a b, of 1 "[]"] example_storage_heap a b
  show ?thesis by blast
qed

text \<open>
  C2, as stated, fails for the specialisation with one dimension: the constructor of a
  single-level map at address 1 leaves a map on which \<^verbatim>\<open>leaf(0x13)\<close> is the address 1 of the
  map's record, not \<^verbatim>\<open>nullptr\<close>.
\<close>

theorem fresh_single_level_mapped:
  "ShadowMap_new 4 [] 1 single_storage = Some single_map \<and>
   leaf 4 [] single_map 1 0x13 = Some (1, single_map) \<and>
   leaf 4 [] single_map 1 0x13 \<noteq> Some (nullptr, single_map)"
  by (simp add: ShadowMap_new_def Leaf_construct_def single_storage_def single_map_def)

text \<open>
  C3. Whenever the read-only lookup returns, the state it returns is the state it was
  given: no slot, no object, no allocator state and no log entry has changed. On a
  well-formed map it does return, for every address.
\<close>

theorem leaf_read_only:
  "(\<forall>p s'. leaf dimension0 ds s this addr = Some (p, s') \<longrightarrow> s' = s) \<and>
   (wf_map dimension0 ds s this \<longrightarrow> (\<exists>p. leaf dimension0 ds s this addr = Some (p, s)))"
  using leaf_state leaf_total by (auto simp: wf_map_def)

theorem leaf_read_only_witness:
  "wf_map 1 [1] example_map 1 \<and> leaf 1 [1] example_map 1 0 = Some (nullptr, example_map) \<and>
   leaf 1 [1] example_map 1 3 = Some (2, example_map)"
proof -
  have a: "\<exists>p. leaf 1 [1] example_map 1 0 = Some (p, example_map)"
    and b: "\<exists>p. leaf 1 [1] example_map 1 3 = Some (p, example_map)"
    using leaf_read_only [of 1 "[1]" example_map 1] wf_example_map by blast+
  have "map_option fst (leaf 1 [1] example_map 1 0) = Some nullptr"
    by (simp add: example_map_def get_pointer_def slot_index_def)
  moreover have "map_option fst (leaf 1 [1] example_map 1 3) = Some 2"
    by (simp add: example_map_def get_pointer_def slot_index_def)
  ultimately show ?thesis using a b wf_example_map by auto
qed

text \<open>
  C5. When every map on the way down for an address exists, \<^verbatim>\<open>leaf_for_write\<close> returns what
  \<^verbatim>\<open>leaf\<close> returns, pointer and state, and the state is the one it was given: nothing is
  allocated and nothing changes. The pointer is not null when the address of the map is
  not.
\<close>

theorem allocated_path_idempotent:
  assumes "path_present dimension0 ds s this addr"
  shows "leaf_for_write dimension0 ds s this addr = leaf dimension0 ds s this addr \<and>
         (\<exists>p. leaf_for_write dimension0 ds s this addr = Some (p, s) \<and>
              (this \<noteq> nullptr \<longrightarrow> p \<noteq> nullptr))"
proof -
  from path_present_leaf [OF assms] obtain p where
    e: "leaf_for_write dimension0 ds s this addr = leaf dimension0 ds s this addr"
    and r: "leaf dimension0 ds s this addr = Some (p, s)"
    by blast
  have "p \<noteq> nullptr" if "this \<noteq> nullptr"
    using assms that r by (rule path_present_nonnull)
  with e r show ?thesis by simp
qed

theorem allocated_path_idempotent_witness:
  "path_present 1 [1] example_map 1 3 \<and> (1::nat) \<noteq> nullptr \<and>
   leaf_for_write 1 [1] example_map 1 3 = leaf 1 [1] example_map 1 3 \<and>
   (\<exists>p. leaf_for_write 1 [1] example_map 1 3 = Some (p, example_map) \<and> p \<noteq> nullptr)"
proof -
  have h: "(1::nat) \<noteq> nullptr" by simp
  note t = allocated_path_idempotent [OF path_present_example]
  from t have e: "leaf_for_write 1 [1] example_map 1 3 = leaf 1 [1] example_map 1 3"
    by (rule conjunct1)
  from t obtain p where "leaf_for_write 1 [1] example_map 1 3 = Some (p, example_map)"
    and "(1::nat) \<noteq> nullptr \<longrightarrow> p \<noteq> nullptr"
    by blast
  with h have "\<exists>p. leaf_for_write 1 [1] example_map 1 3 = Some (p, example_map) \<and> p \<noteq> nullptr"
    by blast
  with path_present_example h e show ?thesis by blast
qed

text \<open>
  C9. After \<^verbatim>\<open>leaf_for_write(a)\<close> on a well-formed map has returned \<open>p\<close>, the read-only lookup
  \<^verbatim>\<open>leaf(b)\<close> returns the same \<open>p\<close> when \<open>a\<close> and \<open>b\<close> agree on every bit from the width of
  the last level upwards; and it returns \<open>p\<close> exactly when they agree on the bits from that
  width up to the sum of the widths, so addresses that differ in one of these bits resolve
  to different leaves (or to none).
\<close>

theorem locality:
  assumes "wf_map dimension0 ds s this"
  shows "\<exists>p s'. leaf_for_write dimension0 ds s this a = Some (p, s') \<and> p \<noteq> nullptr \<and>
           ((\<forall>n. last (dimension0 # ds) \<le> n \<longrightarrow> bit a n = bit b n) \<longrightarrow>
              leaf dimension0 ds s' this b = Some (p, s')) \<and>
           (leaf dimension0 ds s' this b = Some (p, s') \<longleftrightarrow>
              (\<forall>n. last (dimension0 # ds) \<le> n \<and> n < sum_list (dimension0 # ds) \<longrightarrow>
                 bit a n = bit b n))"
proof -
  from lfw_wf [OF assms, of a] obtain p s' where
    w: "leaf_for_write dimension0 ds s this a = Some (p, s')"
    and r: "leaf dimension0 ds s' this a = Some (p, s')" and p0: "p \<noteq> nullptr"
    and wf': "wf_map dimension0 ds s' this"
    by blast
  from wf' have t': "tree (heap s') dimension0 ds this" by (simp add: wf_map_def)
  let ?same = "\<forall>n. last (dimension0 # ds) \<le> n \<and> n < sum_list (dimension0 # ds) \<longrightarrow> bit a n = bit b n"
  have "leaf dimension0 ds s' this b = Some (p, s')" if ?same
    using leaf_same_prefix [of dimension0 ds a b s' this] that r
    by (simp only: dimensions_sum_eq)
  moreover have ?same if "leaf dimension0 ds s' this b = Some (p, s')"
    using leaf_injective [OF t' r that p0] by (simp only: dimensions_sum_eq)
  ultimately have iff: "leaf dimension0 ds s' this b = Some (p, s') \<longleftrightarrow> ?same" by blast
  then have "(\<forall>n. last (dimension0 # ds) \<le> n \<longrightarrow> bit a n = bit b n) \<longrightarrow>
              leaf dimension0 ds s' this b = Some (p, s')" by blast
  with w p0 iff show ?thesis by blast
qed

theorem locality_witness:
  "wf_map 1 [1] example_map 1 \<and>
   (\<exists>p s'. leaf_for_write 1 [1] example_map 1 0 = Some (p, s') \<and> p \<noteq> nullptr \<and>
      leaf 1 [1] s' 1 1 = Some (p, s') \<and> leaf 1 [1] s' 1 2 \<noteq> Some (p, s'))"
proof -
  from locality [OF wf_example_map, of 0 1] obtain p s' where
    w: "leaf_for_write 1 [1] example_map 1 0 = Some (p, s')" and p0: "p \<noteq> nullptr"
    and a: "(\<forall>n. last (1 # [1]) \<le> n \<longrightarrow> bit (0 :: Address) n = bit (1 :: Address) n) \<longrightarrow>
              leaf 1 [1] s' 1 1 = Some (p, s')"
    by blast
  from locality [OF wf_example_map, of 0 2] w have
    b: "leaf 1 [1] s' 1 2 = Some (p, s') \<longleftrightarrow>
        (\<forall>n. last (1 # [1]) \<le> n \<and> n < sum_list (1 # [1]) \<longrightarrow> bit (0 :: Address) n = bit (2 :: Address) n)"
    by auto
  have "\<forall>n. last (1 # [1]) \<le> n \<longrightarrow> bit (0 :: Address) n = bit (1 :: Address) n"
    by (auto simp: bit_1_iff)
  with a have r1: "leaf 1 [1] s' 1 1 = Some (p, s')" by blast
  have "\<not> (\<forall>n. last (1 # [1]) \<le> n \<and> n < sum_list (1 # [1]) \<longrightarrow> bit (0 :: Address) n = bit (2 :: Address) n)"
  proof
    assume "\<forall>n. last (1 # [1]) \<le> n \<and> n < sum_list (1 # [1]) \<longrightarrow> bit (0 :: Address) n = bit (2 :: Address) n"
    moreover have "last (1 # [1]) \<le> (1::nat) \<and> (1::nat) < sum_list (1 # [1])" by simp
    ultimately have "bit (0 :: Address) 1 = bit (2 :: Address) 1" by blast
    moreover have "bit (2 :: Address) 1" by (simp add: bit_iff_odd)
    ultimately show False by simp
  qed
  with b have r2: "leaf 1 [1] s' 1 2 \<noteq> Some (p, s')" by blast
  from w p0 r1 r2 wf_example_map show ?thesis by blast
qed

text \<open>
  C10. For a map with one dimension, \<^verbatim>\<open>leaf\<close> and \<^verbatim>\<open>leaf_for_write\<close> return the address of the
  map, which is the address of its record \<^verbatim>\<open>_leaf\<close>, for every address and in every state,
  and leave the state as it is; the address of an object is not null, so neither returns
  \<^verbatim>\<open>nullptr\<close>.
\<close>

theorem single_level_leaf:
  assumes "this \<noteq> nullptr"
  shows "\<exists>p. leaf dimension0 [] s this addr = Some (p, s) \<and>
           leaf_for_write dimension0 [] s this addr = Some (p, s) \<and> p = this \<and> p \<noteq> nullptr"
  using assms by simp

theorem single_level_leaf_witness:
  "(1::nat) \<noteq> nullptr \<and>
   (\<exists>p. leaf 4 [] single_map 1 0x13 = Some (p, single_map) \<and>
      leaf_for_write 4 [] single_map 1 0x13 = Some (p, single_map) \<and> p = 1 \<and> p \<noteq> nullptr)"
proof -
  have h: "(1::nat) \<noteq> nullptr" by simp
  from single_level_leaf [OF h, of 4 single_map "0x13"] h show ?thesis by blast
qed

section \<open>Initialisation happens once\<close>

text \<open>
  C4. Any sequence of write-triggering lookups on a well-formed map returns and leaves a
  well-formed map. The leaves constructed on the way are pairwise distinct and none of them
  was a map of the tree before, so no leaf is constructed twice; a lookup that returned a
  leaf before the sequence returns the same leaf after it, so a slot that is present does
  not become absent; and when the path of every address is present already, the state does
  not change at all. If up to now the log has no leaf constructed twice and none outside the
  allocator's storage, it has none afterwards: over the life of the map a leaf is
  constructed once.
\<close>

theorem no_double_initialization:
  assumes "wf_map dimension0 ds s this"
  shows "\<exists>s' evs. writes dimension0 ds this addrs s = Some s' \<and> wf_map dimension0 ds s' this \<and>
           trace s' = trace s @ evs \<and> distinct (constructed evs) \<and>
           set (constructed evs) \<inter> nodes (heap s) dimension0 ds this = {} \<and>
           (\<forall>addr p. leaf dimension0 ds s this addr = Some (p, s) \<and> p \<noteq> nullptr \<longrightarrow>
              leaf dimension0 ds s' this addr = Some (p, s')) \<and>
           ((\<forall>a \<in> set addrs. path_present dimension0 ds s this a) \<longrightarrow> s' = s) \<and>
           (distinct (constructed (trace s)) \<and> (\<forall>q \<in> set (constructed (trace s)). q \<le> brk s) \<longrightarrow>
              distinct (constructed (trace s')) \<and>
              (\<forall>q \<in> set (constructed (trace s')). q \<le> brk s'))"
proof -
  let ?N = "nodes (heap s) dimension0 ds this"
  from writes_wf [OF assms, of addrs] obtain s' where
    w: "writes dimension0 ds this addrs s = Some s'"
    and g: "grows dimension0 ds this s s'" and wf': "wf_map dimension0 ds s' this"
    by blast
  from g obtain evs where tr: "trace s' = trace s @ evs" "distinct (constructed evs)"
    "set (constructed evs) \<subseteq> {brk s <.. brk s'}"
    unfolding grows_def by blast
  from g have kp: "\<And>q. q \<in> ?N \<Longrightarrow> keeps (heap s q) (heap s' q)"
    unfolding grows_def by blast
  have "\<forall>q \<in> ?N. q \<le> brk s" using assms by (simp add: wf_map_def)
  with tr(3) have fresh: "set (constructed evs) \<inter> ?N = {}" by fastforce
  have stable: "leaf dimension0 ds s' this addr = Some (p, s')"
    if "leaf dimension0 ds s this addr = Some (p, s)" "p \<noteq> nullptr" for addr p
    using kp that by (rule leaf_keeps)
  have idle: "s' = s" if "\<forall>a \<in> set addrs. path_present dimension0 ds s this a"
    using writes_present [OF that] w by simp
  from g have bk: "brk s \<le> brk s'" unfolding grows_def by blast
  have hist: "distinct (constructed (trace s')) \<and> (\<forall>q \<in> set (constructed (trace s')). q \<le> brk s')"
    if "distinct (constructed (trace s)) \<and> (\<forall>q \<in> set (constructed (trace s)). q \<le> brk s)"
  proof -
    have "set (constructed (trace s)) \<inter> set (constructed evs) = {}"
      using that tr(3) by fastforce
    then have "distinct (constructed (trace s'))"
      using that tr(1,2) by simp
    moreover have "\<forall>q \<in> set (constructed (trace s')). q \<le> brk s'"
      using that tr(1,3) bk by fastforce
    ultimately show ?thesis by simp
  qed
  have stable': "\<forall>addr p. leaf dimension0 ds s this addr = Some (p, s) \<and> p \<noteq> nullptr \<longrightarrow>
              leaf dimension0 ds s' this addr = Some (p, s')"
    using stable by blast
  have idle': "(\<forall>a \<in> set addrs. path_present dimension0 ds s this a) \<longrightarrow> s' = s"
    using idle by blast
  have hist': "distinct (constructed (trace s)) \<and> (\<forall>q \<in> set (constructed (trace s)). q \<le> brk s) \<longrightarrow>
              distinct (constructed (trace s')) \<and>
              (\<forall>q \<in> set (constructed (trace s')). q \<le> brk s')"
    using hist by blast
  show ?thesis
    by (intro exI [of _ s'] exI [of _ evs] conjI)
      (fact w wf' tr(1) tr(2) fresh stable' idle' hist')+
qed

theorem no_double_initialization_witness:
  "wf_map 1 [1] example_map 1 \<and>
   (\<exists>s' evs. writes 1 [1] 1 [0, 3, 1, 0] example_map = Some s' \<and> wf_map 1 [1] s' 1 \<and>
      trace s' = trace example_map @ evs \<and> distinct (constructed evs) \<and>
      set (constructed evs) \<inter> nodes (heap example_map) 1 [1] 1 = {} \<and>
      leaf 1 [1] s' 1 3 = Some (2, s') \<and> distinct (constructed (trace s')))"
proof -
  have "map_option fst (leaf 1 [1] example_map 1 3) = Some 2"
    by (simp add: example_map_def get_pointer_def slot_index_def)
  then have l: "leaf 1 [1] example_map 1 3 = Some (2, example_map)"
    using leaf_state by fastforce
  have h: "distinct (constructed (trace example_map)) \<and>
           (\<forall>q \<in> set (constructed (trace example_map)). q \<le> brk example_map)"
    by (simp add: example_map_def)
  from no_double_initialization [OF wf_example_map, of "[0, 3, 1, 0]"] obtain s' evs where
    "writes 1 [1] 1 [0, 3, 1, 0] example_map = Some s'" "wf_map 1 [1] s' 1"
    "trace s' = trace example_map @ evs" "distinct (constructed evs)"
    "set (constructed evs) \<inter> nodes (heap example_map) 1 [1] 1 = {}"
    and st: "\<forall>addr p. leaf 1 [1] example_map 1 addr = Some (p, example_map) \<and> p \<noteq> nullptr \<longrightarrow>
              leaf 1 [1] s' 1 addr = Some (p, s')"
    and hi: "distinct (constructed (trace example_map)) \<and>
             (\<forall>q \<in> set (constructed (trace example_map)). q \<le> brk example_map) \<longrightarrow>
             distinct (constructed (trace s')) \<and> (\<forall>q \<in> set (constructed (trace s')). q \<le> brk s')"
    by blast
  moreover from st l have "leaf 1 [1] s' 1 3 = Some (2, s')" by (metis zero_neq_numeral)
  moreover from hi h have "distinct (constructed (trace s'))" by blast
  ultimately show ?thesis using wf_example_map by blast
qed

section \<open>Teardown\<close>

lemma teardown_Level:
  "h this = Some (Level ps) \<Longrightarrow>
   teardown h d0 (d1 # ds) this =
     concat (map (\<lambda>c. if c = nullptr then [] else teardown h d1 ds c @ [Free c]) ps) @
     [DestructAt this]"
  by simp

lemma teardown_frame:
  "(\<And>q. q \<in> nodes h d0 ds this \<Longrightarrow> h' q = h q) \<Longrightarrow> teardown h' d0 ds this = teardown h d0 ds this"
proof (induction ds arbitrary: d0 this)
  case Nil
  show ?case by simp
next
  case (Cons d1 ds)
  have same: "h' this = h this"
    by (rule Cons.prems) (rule nodes_self)
  show ?case
  proof (cases "\<exists>ps. h this = Some (Level ps)")
    case False
    with same show ?thesis by (auto split: option.splits obj.splits)
  next
    case True
    then obtain ps where hl: "h this = Some (Level ps)" by blast
    have hl': "h' this = Some (Level ps)" using hl same by simp
    have eq: "teardown h' d1 ds c = teardown h d1 ds c" if c: "c \<in> set ps" "c \<noteq> nullptr" for c
    proof (rule Cons.IH)
      fix q assume "q \<in> nodes h d1 ds c"
      with c hl have "q \<in> nodes h d0 (d1 # ds) this" by auto
      then show "h' q = h q" by (rule Cons.prems)
    qed
    have m: "map (\<lambda>c. if c = nullptr then [] else teardown h' d1 ds c @ [Free c]) ps =
          map (\<lambda>c. if c = nullptr then [] else teardown h d1 ds c @ [Free c]) ps"
      by (rule map_cong) (use eq in auto)
    show ?thesis
      unfolding teardown_Level [where h = h and this = this, OF hl]
        teardown_Level [where h = h' and this = this, OF hl'] m ..
  qed
qed

lemma shadow_free_Some:
  "heap t c \<noteq> None \<Longrightarrow>
   shadow_free c t = Some (t\<lparr>heap := (heap t)(c := None), trace := trace t @ [Free c]\<rparr>)"
  by (auto simp: shadow_free_def split: option.splits)

lemma destructAt_main:
  assumes "tree (heap s) d0 ds this"
  shows "\<exists>s'. destructAt d0 ds this s = Some s' \<and>
           trace s' = trace s @ teardown (heap s) d0 ds this \<and>
           brk s' = brk s \<and> junk s' = junk s \<and>
           (\<forall>q. q \<notin> nodes (heap s) d0 ds this \<longrightarrow> heap s' q = heap s q) \<and>
           (\<forall>q \<in> nodes (heap s) d0 ds this - {this}. heap s' q = None) \<and>
           heap s' this \<noteq> None"
  using assms
proof (induction ds arbitrary: d0 this s)
  case Nil
  then show ?case
    by (auto simp: Leaf_destruct_def split: option.splits obj.splits)
next
  case (Cons d1 ds)
  let ?N = "nodes (heap s) d0 (d1 # ds) this"
  from Cons.prems obtain ps where hl: "heap s this = Some (Level ps)"
    and len: "length ps = nslots d0"
    using tree_LevelD by blast
  from Cons.prems hl have
    ch: "\<And>k. k < length ps \<Longrightarrow> ps ! k \<noteq> nullptr \<Longrightarrow>
               tree (heap s) d1 ds (ps ! k) \<and> this \<notin> nodes (heap s) d1 ds (ps ! k)"
    and dj: "\<And>k j. k < length ps \<Longrightarrow> ps ! k \<noteq> nullptr \<Longrightarrow> j < length ps \<Longrightarrow> j \<noteq> k \<Longrightarrow>
               ps ! j \<noteq> nullptr \<Longrightarrow>
               nodes (heap s) d1 ds (ps ! k) \<inter> nodes (heap s) d1 ds (ps ! j) = {}"
    by (simp_all add: tree_Level [where h = "heap s" and this = this])
  note below = Cons.IH
  define body where "body = (\<lambda>i t. do { p \<leftarrow> get_pointer t this i;
                              if p \<noteq> nullptr
                              then do { q \<leftarrow> get_pointer t this i;
                                        t1 \<leftarrow> destructAt d1 ds q t;
                                        r \<leftarrow> get_pointer t1 this i;
                                        shadow_free r t1 }
                              else Some t })"
  define seg where "seg = (\<lambda>c. if c = nullptr then [] else teardown (heap s) d1 ds c @ [Free c])"
  define kids where "kids = (\<lambda>i. if ps ! i = nullptr then {} else nodes (heap s) d1 ds (ps ! i))"
  have this_kids: "this \<notin> kids i" if "i < length ps" for i
    using ch [OF that] by (simp add: kids_def)
  have kids_dj: "kids i \<inter> kids j = {}" if "i < length ps" "j < length ps" "i \<noteq> j" for i j
    using dj [of i j] that by (auto simp: kids_def)
  have loop: "\<exists>t'. for_loop is body t = Some t' \<and>
        trace t' = trace t @ concat (map (\<lambda>i. seg (ps ! i)) is) \<and>
        brk t' = brk t \<and> junk t' = junk t \<and>
        (\<forall>q. heap t' q = (if q \<in> (\<Union>i \<in> set is. kids i) then None else heap t q))"
    if "distinct is" "\<forall>i \<in> set is. i < length ps" "heap t this = Some (Level ps)"
      "\<forall>i \<in> set is. \<forall>q \<in> kids i. heap t q = heap s q" for "is" t
    using that
  proof (induction "is" arbitrary: t)
    case Nil
    show ?case by simp
  next
    case (Cons i "is")
    from Cons.prems have i: "i < length ps" and ni: "i \<notin> set is" and dis: "distinct is"
      and bnd: "\<forall>j \<in> set is. j < length ps"
      by simp_all
    have gp: "get_pointer t this i = Some (ps ! i)"
      using Cons.prems(3) i by (rule get_pointer_Level)
    show ?case
    proof (cases "ps ! i = nullptr")
      case True
      have b: "body i t = Some t" using gp True by (simp add: body_def)
      have "\<forall>j \<in> set is. \<forall>q \<in> kids j. heap t q = heap s q" using Cons.prems(4) by simp
      from Cons.IH [OF dis bnd Cons.prems(3) this] obtain t' where
        "for_loop is body t = Some t'" "trace t' = trace t @ concat (map (\<lambda>i. seg (ps ! i)) is)"
        "brk t' = brk t" "junk t' = junk t"
        "\<forall>q. heap t' q = (if q \<in> (\<Union>i \<in> set is. kids i) then None else heap t q)"
        by blast
      with b True show ?thesis by (simp add: seg_def kids_def)
    next
      case False
      let ?c = "ps ! i"
      have kc: "kids i = nodes (heap s) d1 ds ?c" using False by (simp add: kids_def)
      have agree: "heap t q = heap s q" if "q \<in> nodes (heap s) d1 ds ?c" for q
        using Cons.prems(4) that kc by simp
      have nt: "nodes (heap t) d1 ds ?c = nodes (heap s) d1 ds ?c"
        by (rule nodes_frame) (rule agree)
      have "tree (heap t) d1 ds ?c = tree (heap s) d1 ds ?c"
        by (rule tree_frame) (rule agree)
      then have tc: "tree (heap t) d1 ds ?c" using ch [OF i False] by simp
      have td: "teardown (heap t) d1 ds ?c = teardown (heap s) d1 ds ?c"
        by (rule teardown_frame) (rule agree)
      from below [OF tc] obtain t1 where
        d: "destructAt d1 ds ?c t = Some t1"
        and tr1: "trace t1 = trace t @ teardown (heap s) d1 ds ?c"
        and b1: "brk t1 = brk t" and j1: "junk t1 = junk t"
        and f1: "\<And>q. q \<notin> nodes (heap s) d1 ds ?c \<Longrightarrow> heap t1 q = heap t q"
        and g1: "\<And>q. q \<in> nodes (heap s) d1 ds ?c \<Longrightarrow> q \<noteq> ?c \<Longrightarrow> heap t1 q = None"
        and c1: "heap t1 ?c \<noteq> None"
        unfolding nt td by blast
      have "heap t1 this = heap t this"
        using ch [OF i False] by (intro f1) simp
      then have gp1: "get_pointer t1 this i = Some ?c"
        using Cons.prems(3) i by (simp add: get_pointer_def)
      define t2 where "t2 = t1\<lparr>heap := (heap t1)(?c := None), trace := trace t1 @ [Free ?c]\<rparr>"
      have fr: "shadow_free ?c t1 = Some t2"
        unfolding t2_def using c1 by (rule shadow_free_Some)
      have b: "body i t = Some t2"
        using gp False d gp1 fr by (simp add: body_def)
      have h2: "heap t2 q = (if q \<in> kids i then None else heap t q)" for q
        unfolding kc using f1 [of q] g1 [of q] nodes_self [of ?c "heap s" d1 ds]
        by (auto simp: t2_def)
      have hl2: "heap t2 this = Some (Level ps)"
        using h2 [of this] this_kids [OF i] Cons.prems(3) by simp
      have pre: "\<forall>j \<in> set is. \<forall>q \<in> kids j. heap t2 q = heap s q"
      proof (intro ballI)
        fix j q assume j: "j \<in> set is" and q: "q \<in> kids j"
        have "j \<noteq> i" using j ni by blast
        then have "q \<notin> kids i" using kids_dj [of j i] bnd j i q by blast
        then have "heap t2 q = heap t q" using h2 by simp
        also have "\<dots> = heap s q" using Cons.prems(4) j q by simp
        finally show "heap t2 q = heap s q" .
      qed
      from Cons.IH [OF dis bnd hl2 pre] obtain t' where
        l: "for_loop is body t2 = Some t'"
        and tr': "trace t' = trace t2 @ concat (map (\<lambda>i. seg (ps ! i)) is)"
        and b': "brk t' = brk t2" and j': "junk t' = junk t2"
        and h': "\<forall>q. heap t' q = (if q \<in> (\<Union>i \<in> set is. kids i) then None else heap t2 q)"
        by blast
      have L: "for_loop (i # is) body t = Some t'" using b l by simp
      have T: "trace t' = trace t @ concat (map (\<lambda>i. seg (ps ! i)) (i # is))"
        using tr' tr1 False by (simp add: t2_def seg_def)
      have B: "brk t' = brk t" "junk t' = junk t" using b' j' b1 j1 by (simp_all add: t2_def)
      have H: "\<forall>q. heap t' q = (if q \<in> (\<Union>i \<in> set (i # is). kids i) then None else heap t q)"
        using h' h2 by auto
      from L T B H show ?thesis by blast
    qed
  qed
  have "\<forall>i \<in> set [0..<length ps]. \<forall>q \<in> kids i. heap s q = heap s q" by simp
  moreover have "distinct [0..<length ps]" "\<forall>i \<in> set [0..<length ps]. i < length ps" by simp_all
  ultimately obtain s1 where
    l: "for_loop [0..<length ps] body s = Some s1"
    and tr1: "trace s1 = trace s @ concat (map (\<lambda>i. seg (ps ! i)) [0..<length ps])"
    and b1: "brk s1 = brk s" and j1: "junk s1 = junk s"
    and h1: "\<forall>q. heap s1 q = (if q \<in> (\<Union>i \<in> set [0..<length ps]. kids i) then None else heap s q)"
    using loop [OF _ _ hl] by blast
  have "map (\<lambda>i. seg (ps ! i)) [0..<length ps] = map seg ps"
    by (rule nth_equalityI) simp_all
  then have tr1': "trace s1 = trace s @ concat (map seg ps)" using tr1 by simp
  have K: "(\<Union>i \<in> set [0..<length ps]. kids i) = ?N - {this}"
  proof -
    have "(\<Union>i \<in> set [0..<length ps]. kids i) =
          (\<Union>k \<in> {k. k < length ps \<and> ps ! k \<noteq> nullptr}. nodes (heap s) d1 ds (ps ! k))"
      by (auto simp: kids_def split: if_splits)
    moreover have "this \<notin> (\<Union>k \<in> {k. k < length ps \<and> ps ! k \<noteq> nullptr}. nodes (heap s) d1 ds (ps ! k))"
      using ch by blast
    ultimately show ?thesis
      unfolding nodes_Level [where h = "heap s" and this = this, OF hl] Union_slots by auto
  qed
  define s' where "s' = s1\<lparr>trace := trace s1 @ [DestructAt this]\<rparr>"
  have D: "destructAt d0 (d1 # ds) this s = Some s'"
    using l len by (simp add: body_def s'_def)
  have T: "trace s' = trace s @ teardown (heap s) d0 (d1 # ds) this"
    unfolding teardown_Level [where h = "heap s" and this = this, OF hl]
    using tr1' by (simp add: s'_def seg_def)
  have H: "heap s' q = (if q \<in> ?N - {this} then None else heap s q)" for q
  proof -
    have "heap s' q = heap s1 q" by (simp add: s'_def)
    also have "\<dots> = (if q \<in> (\<Union>i \<in> set [0..<length ps]. kids i) then None else heap s q)"
      using h1 by blast
    finally show ?thesis unfolding K .
  qed
  have H0: "heap s' this \<noteq> None" using H [of this] hl by simp
  have H1: "\<forall>q. q \<notin> ?N \<longrightarrow> heap s' q = heap s q" using H by simp
  have H2: "\<forall>q \<in> ?N - {this}. heap s' q = None" using H by simp
  have B: "brk s' = brk s" "junk s' = junk s" using b1 j1 by (simp_all add: s'_def)
  from D T B H1 H2 H0 show ?case by blast
qed

lemma freed_append [simp]: "freed (xs @ ys) = freed xs @ freed ys"
  by (induction xs rule: freed.induct) simp_all

lemma finalized_append [simp]: "finalized (xs @ ys) = finalized xs @ finalized ys"
  by (induction xs rule: finalized.induct) simp_all

lemma freed_concat: "freed (concat xss) = concat (map freed xss)"
  by (induction xss) simp_all

lemma finalized_concat: "finalized (concat xss) = concat (map finalized xss)"
  by (induction xss) simp_all

lemma distinct_concat_slots:
  assumes "\<And>i. i < length ps \<Longrightarrow> distinct (f (ps ! i))"
    and "\<And>i j. i < length ps \<Longrightarrow> j < length ps \<Longrightarrow> i \<noteq> j \<Longrightarrow> set (f (ps ! i)) \<inter> set (f (ps ! j)) = {}"
  shows "distinct (concat (map f ps))"
  using assms
proof (induction ps)
  case Nil
  show ?case by simp
next
  case (Cons p ps)
  have d0: "distinct (f p)" using Cons.prems(1) [of 0] by simp
  have dr: "distinct (concat (map f ps))"
  proof (rule Cons.IH)
    fix i assume "i < length ps"
    then show "distinct (f (ps ! i))" using Cons.prems(1) [of "Suc i"] by simp
  next
    fix i j assume "i < length ps" "j < length ps" "i \<noteq> j"
    then show "set (f (ps ! i)) \<inter> set (f (ps ! j)) = {}"
      using Cons.prems(2) [of "Suc i" "Suc j"] by simp
  qed
  have "set (f p) \<inter> set (f c) = {}" if "c \<in> set ps" for c
  proof -
    from that obtain j where "j < length ps" "ps ! j = c" by (auto simp: in_set_conv_nth)
    then show ?thesis using Cons.prems(2) [of 0 "Suc j"] by simp
  qed
  then have "set (f p) \<inter> set (concat (map f ps)) = {}" by auto
  with d0 dr show ?case by simp
qed

lemma paired_Nil: "paired []"
  by (simp add: paired_def)

lemma paired_append:
  assumes "paired es" and "paired fs" and "starts_ok fs"
  shows "paired (es @ fs)"
  unfolding paired_def
proof (intro allI impI)
  fix xs q ys assume "es @ fs = xs @ Free q # ys"
  then consider us where "es = xs @ us" "us @ fs = Free q # ys"
    | us where "es @ us = xs" "fs = us @ Free q # ys"
    by (auto simp: append_eq_append_conv2)
  then show "xs \<noteq> [] \<and> last xs = DestructAt q"
  proof cases
    case 1
    show ?thesis
    proof (cases us)
      case Nil
      with 1 have "fs = Free q # ys" by simp
      with assms(3) show ?thesis by (simp add: starts_ok_def)
    next
      case (Cons u us')
      with 1 have "es = xs @ Free q # us'" by simp
      with assms(1) show ?thesis unfolding paired_def by blast
    qed
  next
    case 2
    with assms(2) have "us \<noteq> [] \<and> last us = DestructAt q" unfolding paired_def by blast
    with 2 show ?thesis by auto
  qed
qed

lemma paired_snoc_Free:
  assumes "paired es" and "es \<noteq> []" and "last es = DestructAt c"
  shows "paired (es @ [Free c])"
  unfolding paired_def
proof (intro allI impI)
  fix xs q ys assume e: "es @ [Free c] = xs @ Free q # ys"
  show "xs \<noteq> [] \<and> last xs = DestructAt q"
  proof (cases ys rule: rev_cases)
    case Nil
    with e have "xs = es" "q = c" by simp_all
    with assms(2,3) show ?thesis by simp
  next
    case (snoc ys' y)
    with e have "es = xs @ Free q # ys'" by simp
    with assms(1) show ?thesis unfolding paired_def by blast
  qed
qed

lemma paired_snoc:
  assumes "paired es" and "\<forall>q. e \<noteq> Free q"
  shows "paired (es @ [e])"
proof (rule paired_append [OF assms(1)])
  show "paired [e]"
    unfolding paired_def using assms(2) by (auto simp: Cons_eq_append_conv)
  show "starts_ok [e]" using assms(2) by (simp add: starts_ok_def)
qed

lemma starts_ok_append: "starts_ok es \<Longrightarrow> es \<noteq> [] \<or> starts_ok fs \<Longrightarrow> starts_ok (es @ fs)"
  by (cases es) (auto simp: starts_ok_def)

lemma before_append: "before a b es \<Longrightarrow> before a b (us @ es @ vs)"
proof -
  assume "before a b es"
  then obtain xs ys zs where "es = xs @ a # ys @ b # zs" unfolding before_def by blast
  then have "us @ es @ vs = (us @ xs) @ a # ys @ b # (zs @ vs)" by simp
  then show ?thesis unfolding before_def by blast
qed

lemma before_snoc: "a \<in> set es \<Longrightarrow> before a b (es @ [b])"
proof -
  assume "a \<in> set es"
  then obtain xs ys where "es = xs @ a # ys" by (auto dest: split_list)
  then have "es @ [b] = xs @ a # ys @ b # []" by simp
  then show ?thesis unfolding before_def by blast
qed

lemma segs_paired:
  assumes "\<And>c. c \<in> set cs \<Longrightarrow> c \<noteq> nullptr \<Longrightarrow>
             t c \<noteq> [] \<and> last (t c) = DestructAt c \<and> starts_ok (t c) \<and> paired (t c)"
  shows "paired (concat (map (\<lambda>c. if c = nullptr then [] else t c @ [Free c]) cs)) \<and>
         starts_ok (concat (map (\<lambda>c. if c = nullptr then [] else t c @ [Free c]) cs))"
  using assms
proof (induction cs)
  case Nil
  show ?case by (simp add: paired_Nil starts_ok_def)
next
  case (Cons c cs)
  let ?seg = "\<lambda>c. if c = nullptr then [] else t c @ [Free c]"
  have rest: "paired (concat (map ?seg cs)) \<and> starts_ok (concat (map ?seg cs))"
    by (rule Cons.IH) (use Cons.prems in simp)
  show ?case
  proof (cases "c = nullptr")
    case True
    with rest show ?thesis by simp
  next
    case False
    from Cons.prems [of c] False have tc: "t c \<noteq> []" "last (t c) = DestructAt c"
      "starts_ok (t c)" "paired (t c)"
      by simp_all
    have p: "paired (t c @ [Free c])" using tc(4,1,2) by (rule paired_snoc_Free)
    have s: "starts_ok (t c @ [Free c])" using tc(3,1) by (simp add: starts_ok_append)
    have "paired ((t c @ [Free c]) @ concat (map ?seg cs))"
      using p rest by (simp only: paired_append)
    moreover have "starts_ok ((t c @ [Free c]) @ concat (map ?seg cs))"
      using s by (rule starts_ok_append) simp
    ultimately show ?thesis using False by simp
  qed
qed

lemma teardown_shape:
  assumes "tree h d0 ds this"
  shows "teardown h d0 ds this \<noteq> [] \<and> last (teardown h d0 ds this) = DestructAt this \<and>
         starts_ok (teardown h d0 ds this) \<and> paired (teardown h d0 ds this) \<and>
         distinct (freed (teardown h d0 ds this)) \<and>
         set (freed (teardown h d0 ds this)) = nodes h d0 ds this - {this} \<and>
         distinct (finalized (teardown h d0 ds this)) \<and>
         set (finalized (teardown h d0 ds this)) = nodes h d0 ds this"
  using assms
proof (induction ds arbitrary: d0 this)
  case Nil
  have "paired [Destruct this, DestructAt this]"
    unfolding paired_def by (auto simp: Cons_eq_append_conv)
  then show ?case by (simp add: starts_ok_def)
next
  case (Cons d1 ds)
  let ?N = "nodes h d0 (d1 # ds) this"
  from Cons.prems obtain ps where hl: "h this = Some (Level ps)"
    using tree_LevelD by blast
  from Cons.prems hl have
    ch: "\<And>k. k < length ps \<Longrightarrow> ps ! k \<noteq> nullptr \<Longrightarrow>
               tree h d1 ds (ps ! k) \<and> this \<notin> nodes h d1 ds (ps ! k)"
    and dj: "\<And>k j. k < length ps \<Longrightarrow> ps ! k \<noteq> nullptr \<Longrightarrow> j < length ps \<Longrightarrow> j \<noteq> k \<Longrightarrow>
               ps ! j \<noteq> nullptr \<Longrightarrow> nodes h d1 ds (ps ! k) \<inter> nodes h d1 ds (ps ! j) = {}"
    by (simp_all add: tree_Level [where h = h and this = this])
  define t where "t = teardown h d1 ds"
  define seg where "seg = (\<lambda>c. if c = nullptr then [] else t c @ [Free c])"
  define kids where "kids = (\<lambda>c. if c = nullptr then {} else nodes h d1 ds c)"
  have td: "teardown h d0 (d1 # ds) this = concat (map seg ps) @ [DestructAt this]"
    unfolding teardown_Level [where h = h and this = this, OF hl] seg_def t_def ..
  have ih: "t c \<noteq> [] \<and> last (t c) = DestructAt c \<and> starts_ok (t c) \<and> paired (t c) \<and>
      distinct (freed (t c)) \<and> set (freed (t c)) = nodes h d1 ds c - {c} \<and>
      distinct (finalized (t c)) \<and> set (finalized (t c)) = nodes h d1 ds c"
    if "c \<in> set ps" "c \<noteq> nullptr" for c
  proof -
    from that obtain k where "k < length ps" "ps ! k = c" by (auto simp: in_set_conv_nth)
    with ch [of k] that have "tree h d1 ds c" by simp
    then show ?thesis unfolding t_def by (rule Cons.IH)
  qed
  have ps: "paired (concat (map seg ps)) \<and> starts_ok (concat (map seg ps))"
    unfolding seg_def by (rule segs_paired) (use ih in blast)
  have A: "teardown h d0 (d1 # ds) this \<noteq> []" "last (teardown h d0 (d1 # ds) this) = DestructAt this"
    unfolding td by simp_all
  have B: "starts_ok (teardown h d0 (d1 # ds) this)"
    unfolding td using ps by (intro starts_ok_append) (simp_all add: starts_ok_def)
  have C: "paired (teardown h d0 (d1 # ds) this)"
    unfolding td using ps by (intro paired_snoc) simp_all
  have Nk: "?N = insert this (\<Union>c \<in> set ps. kids c)"
    unfolding nodes_Level [where h = h and this = this, OF hl] kids_def by auto
  have this_kids: "this \<notin> (\<Union>c \<in> set ps. kids c)"
    using ch by (auto simp: kids_def in_set_conv_nth)
  have kids_dj: "kids (ps ! i) \<inter> kids (ps ! j) = {}" if "i < length ps" "j < length ps" "i \<noteq> j" for i j
    using dj [of i j] that by (auto simp: kids_def)
  have fseg: "freed (seg c) = (if c = nullptr then [] else freed (t c) @ [c])" for c
    by (simp add: seg_def)
  have fset: "set (freed (seg c)) = kids c" if "c \<in> set ps" for c
    using ih [OF that] nodes_self [of c h d1 ds] by (auto simp: fseg kids_def)
  have fdis: "distinct (freed (seg c))" if "c \<in> set ps" for c
    using ih [OF that] by (auto simp: fseg)
  have F1: "freed (teardown h d0 (d1 # ds) this) = concat (map (\<lambda>c. freed (seg c)) ps)"
    unfolding td by (simp add: freed_concat comp_def)
  have D: "distinct (freed (teardown h d0 (d1 # ds) this))"
    unfolding F1
  proof (rule distinct_concat_slots)
    fix i assume "i < length ps"
    then show "distinct (freed (seg (ps ! i)))" by (intro fdis) simp
  next
    fix i j assume "i < length ps" "j < length ps" "i \<noteq> j"
    then show "set (freed (seg (ps ! i))) \<inter> set (freed (seg (ps ! j))) = {}"
      using kids_dj [of i j] by (simp add: fset)
  qed
  have E: "set (freed (teardown h d0 (d1 # ds) this)) = ?N - {this}"
    unfolding F1 Nk using this_kids fset by auto
  have gseg: "finalized (seg c) = (if c = nullptr then [] else finalized (t c))" for c
    by (simp add: seg_def)
  have gset: "set (finalized (seg c)) = kids c" if "c \<in> set ps" for c
    using ih [OF that] by (auto simp: gseg kids_def)
  have gdis: "distinct (finalized (seg c))" if "c \<in> set ps" for c
    using ih [OF that] by (auto simp: gseg)
  have G1: "finalized (teardown h d0 (d1 # ds) this) = concat (map (\<lambda>c. finalized (seg c)) ps) @ [this]"
    unfolding td by (simp add: finalized_concat comp_def)
  have G2: "distinct (concat (map (\<lambda>c. finalized (seg c)) ps))"
  proof (rule distinct_concat_slots)
    fix i assume "i < length ps"
    then show "distinct (finalized (seg (ps ! i)))" by (intro gdis) simp
  next
    fix i j assume "i < length ps" "j < length ps" "i \<noteq> j"
    then show "set (finalized (seg (ps ! i))) \<inter> set (finalized (seg (ps ! j))) = {}"
      using kids_dj [of i j] by (simp add: gset)
  qed
  have G3: "set (concat (map (\<lambda>c. finalized (seg c)) ps)) = (\<Union>c \<in> set ps. kids c)"
    using gset by auto
  have G: "distinct (finalized (teardown h d0 (d1 # ds) this))"
    unfolding G1 using G2 G3 this_kids by simp
  have H: "set (finalized (teardown h d0 (d1 # ds) this)) = ?N"
    unfolding G1 Nk using G3 by simp
  from A B C D E G H show ?case by blast
qed

lemma destructed_append [simp]: "destructed (xs @ ys) = destructed xs @ destructed ys"
  by (induction xs rule: destructed.induct) simp_all

lemma destructed_concat: "destructed (concat xss) = concat (map destructed xss)"
  by (induction xss) simp_all

lemma teardown_leaves:
  assumes "tree h d0 ds this"
  shows "distinct (destructed (teardown h d0 ds this)) \<and>
         set (destructed (teardown h d0 ds this)) =
           {q \<in> nodes h d0 ds this. \<exists>l. h q = Some (Term l)}"
  using assms
proof (induction ds arbitrary: d0 this)
  case Nil
  then show ?case by (auto split: option.splits obj.splits)
next
  case (Cons d1 ds)
  let ?N = "nodes h d0 (d1 # ds) this"
  from Cons.prems obtain ps where hl: "h this = Some (Level ps)"
    using tree_LevelD by blast
  from Cons.prems hl have
    ch: "\<And>k. k < length ps \<Longrightarrow> ps ! k \<noteq> nullptr \<Longrightarrow> tree h d1 ds (ps ! k)"
    and dj: "\<And>k j. k < length ps \<Longrightarrow> ps ! k \<noteq> nullptr \<Longrightarrow> j < length ps \<Longrightarrow> j \<noteq> k \<Longrightarrow>
               ps ! j \<noteq> nullptr \<Longrightarrow> nodes h d1 ds (ps ! k) \<inter> nodes h d1 ds (ps ! j) = {}"
    by (simp_all add: tree_Level [where h = h and this = this])
  define seg where "seg = (\<lambda>c. if c = nullptr then [] else teardown h d1 ds c @ [Free c])"
  define lv where "lv = (\<lambda>c. if c = nullptr then {} else {q \<in> nodes h d1 ds c. \<exists>l. h q = Some (Term l)})"
  have td: "teardown h d0 (d1 # ds) this = concat (map seg ps) @ [DestructAt this]"
    unfolding teardown_Level [where h = h and this = this, OF hl] seg_def ..
  have ih: "distinct (destructed (seg c)) \<and> set (destructed (seg c)) = lv c"
    if "c \<in> set ps" for c
  proof (cases "c = nullptr")
    case True
    then show ?thesis by (simp add: seg_def lv_def)
  next
    case False
    from that obtain k where "k < length ps" "ps ! k = c" by (auto simp: in_set_conv_nth)
    with ch [of k] False have "tree h d1 ds c" by simp
    from Cons.IH [OF this] False show ?thesis by (simp add: seg_def lv_def)
  qed
  have lv_dj: "lv (ps ! i) \<inter> lv (ps ! j) = {}" if "i < length ps" "j < length ps" "i \<noteq> j" for i j
    using dj [of i j] that by (auto simp: lv_def)
  have D1: "destructed (teardown h d0 (d1 # ds) this) = concat (map (\<lambda>c. destructed (seg c)) ps)"
    unfolding td by (simp add: destructed_concat comp_def)
  have A: "distinct (destructed (teardown h d0 (d1 # ds) this))"
    unfolding D1
  proof (rule distinct_concat_slots)
    fix i assume "i < length ps"
    then show "distinct (destructed (seg (ps ! i)))" using ih by simp
  next
    fix i j assume "i < length ps" "j < length ps" "i \<noteq> j"
    then show "set (destructed (seg (ps ! i))) \<inter> set (destructed (seg (ps ! j))) = {}"
      using lv_dj [of i j] ih by simp
  qed
  have "set (destructed (teardown h d0 (d1 # ds) this)) = (\<Union>c \<in> set ps. lv c)"
    unfolding D1 using ih by auto
  also have "\<dots> = {q \<in> ?N. \<exists>l. h q = Some (Term l)}"
    unfolding nodes_Level [where h = h and this = this, OF hl] using hl by (auto simp: lv_def)
  finally show ?case using A by simp
qed

lemma teardown_order:
  assumes "tree h d0 ds this" and "q \<in> nodes h d0 ds this" and "h q = Some (Level qs)"
    and "c \<in> set qs" and "c \<noteq> nullptr"
  shows "before (Free c) (DestructAt q) (teardown h d0 ds this)"
  using assms(1,2)
proof (induction ds arbitrary: d0 this)
  case Nil
  then have "q = this" by simp
  with Nil.prems(1) assms(3) show ?case by simp
next
  case (Cons d1 ds)
  from Cons.prems(1) obtain ps where hl: "h this = Some (Level ps)"
    using tree_LevelD by blast
  define seg where "seg = (\<lambda>c. if c = nullptr then [] else teardown h d1 ds c @ [Free c])"
  have td: "teardown h d0 (d1 # ds) this = concat (map seg ps) @ [DestructAt this]"
    unfolding teardown_Level [where h = h and this = this, OF hl] seg_def ..
  show ?case
  proof (cases "q = this")
    case True
    with hl assms(3) have "qs = ps" by simp
    with assms(4,5) have "Free c \<in> set (concat (map seg ps))"
      by (auto simp: seg_def intro!: bexI [of _ c])
    then show ?thesis unfolding td True by (rule before_snoc)
  next
    case False
    with Cons.prems(2) hl obtain c' where c': "c' \<in> set ps" "c' \<noteq> nullptr" "q \<in> nodes h d1 ds c'"
      by auto
    from c'(1) obtain k where k: "k < length ps" "ps ! k = c'" by (auto simp: in_set_conv_nth)
    have "tree h d1 ds c'"
      using Cons.prems(1) k c'(2) unfolding tree_Level [where h = h and this = this, OF hl] by blast
    then have b: "before (Free c) (DestructAt q) (teardown h d1 ds c')"
      using c'(3) by (rule Cons.IH)
    from c'(1) obtain ps1 ps2 where "ps = ps1 @ c' # ps2" by (auto dest: split_list)
    then have "teardown h d0 (d1 # ds) this =
        concat (map seg ps1) @ teardown h d1 ds c' @ ([Free c'] @ concat (map seg ps2) @ [DestructAt this])"
      unfolding td using c'(2) by (simp add: seg_def)
    then show ?thesis using before_append [OF b] by simp
  qed
qed

lemma tree_example_map: "tree (heap example_map) 1 [1] 1"
  using wf_example_map by (simp add: wf_map_def)

text \<open>
  C6. Destroying a map whose objects form a tree returns. With K the number of maps below
  the root, the log grows by exactly K releases, one for each map below the root and none
  for the root; \<^verbatim>\<open>destructAt\<close> returns once for each map, the root included, and
  \<^verbatim>\<open>destruct()\<close> is called once for each leaf; every release
  stands right after the return of \<^verbatim>\<open>destructAt\<close> for the same map; the release of a map in a
  slot stands before the return of \<^verbatim>\<open>destructAt\<close> for the map that holds the slot, hence
  before that map is released; afterwards the maps below the root are gone, the storage of
  the root is still there, and nothing else has changed.
\<close>

theorem teardown_complete:
  assumes "tree (heap s) dimension0 ds this"
  shows "\<exists>s' evs. ShadowMap_delete dimension0 ds this s = Some s' \<and> trace s' = trace s @ evs \<and>
           distinct (freed evs) \<and>
           set (freed evs) = nodes (heap s) dimension0 ds this - {this} \<and>
           length (freed evs) = card (nodes (heap s) dimension0 ds this - {this}) \<and>
           distinct (finalized evs) \<and>
           set (finalized evs) = nodes (heap s) dimension0 ds this \<and>
           distinct (destructed evs) \<and>
           set (destructed evs) =
             {q \<in> nodes (heap s) dimension0 ds this. \<exists>l. heap s q = Some (Term l)} \<and>
           (\<forall>xs q ys. evs = xs @ Free q # ys \<longrightarrow> xs \<noteq> [] \<and> last xs = DestructAt q) \<and>
           (\<forall>q qs c. q \<in> nodes (heap s) dimension0 ds this \<and> heap s q = Some (Level qs) \<and>
                c \<in> set qs \<and> c \<noteq> nullptr \<longrightarrow>
                (\<exists>xs ys zs. evs = xs @ Free c # ys @ DestructAt q # zs)) \<and>
           (\<forall>q \<in> nodes (heap s) dimension0 ds this - {this}. heap s' q = None) \<and>
           heap s' this \<noteq> None \<and>
           (\<forall>q. q \<notin> nodes (heap s) dimension0 ds this \<longrightarrow> heap s' q = heap s q)"
proof -
  let ?N = "nodes (heap s) dimension0 ds this"
  let ?evs = "teardown (heap s) dimension0 ds this"
  from destructAt_main [OF assms] obtain s' where
    d: "ShadowMap_delete dimension0 ds this s = Some s'"
    and tr: "trace s' = trace s @ ?evs"
    and out: "\<forall>q. q \<notin> ?N \<longrightarrow> heap s' q = heap s q"
    and gone: "\<forall>q \<in> ?N - {this}. heap s' q = None"
    and root: "heap s' this \<noteq> None"
    unfolding ShadowMap_delete_def by blast
  from teardown_shape [OF assms] have
    p: "paired ?evs" and fd: "distinct (freed ?evs)" and fs: "set (freed ?evs) = ?N - {this}"
    and gd: "distinct (finalized ?evs)" and gs: "set (finalized ?evs) = ?N"
    by blast+
  from teardown_leaves [OF assms] have
    ld: "distinct (destructed ?evs)"
    and ls: "set (destructed ?evs) = {q \<in> ?N. \<exists>l. heap s q = Some (Term l)}"
    by blast+
  have fl: "length (freed ?evs) = card (?N - {this})"
    using distinct_card [OF fd] fs by simp
  have pr: "\<forall>xs q ys. ?evs = xs @ Free q # ys \<longrightarrow> xs \<noteq> [] \<and> last xs = DestructAt q"
    using p unfolding paired_def .
  have ord: "\<forall>q qs c. q \<in> ?N \<and> heap s q = Some (Level qs) \<and> c \<in> set qs \<and> c \<noteq> nullptr \<longrightarrow>
                (\<exists>xs ys zs. ?evs = xs @ Free c # ys @ DestructAt q # zs)"
    using teardown_order [OF assms] unfolding before_def by blast
  show ?thesis
    by (intro exI [of _ s'] exI [of _ ?evs] conjI)
      (fact d tr fd fs fl gd gs ld ls pr ord gone root out)+
qed

lemma nodes_example_map: "nodes (heap example_map) 1 [1] 1 - {1} = {2}"
  by (auto simp: example_map_def)

lemma nodes_example_map_all: "nodes (heap example_map) 1 [1] 1 = {1, 2}"
  by (auto simp: example_map_def)

lemma leaves_example_map:
  "{q \<in> nodes (heap example_map) 1 [1] 1. \<exists>l. heap example_map q = Some (Term l)} = {2}"
  unfolding nodes_example_map_all by (auto simp: example_map_def)

theorem teardown_complete_witness:
  "tree (heap example_map) 1 [1] 1 \<and>
   (\<exists>s' evs. ShadowMap_delete 1 [1] 1 example_map = Some s' \<and>
      trace s' = trace example_map @ evs \<and> freed evs = [2] \<and>
      distinct (finalized evs) \<and> set (finalized evs) = {1, 2} \<and> destructed evs = [2] \<and>
      heap s' 2 = None \<and> heap s' 1 \<noteq> None)"
proof -
  from teardown_complete [OF tree_example_map] obtain s' evs where
    d: "ShadowMap_delete 1 [1] 1 example_map = Some s'"
    and tr: "trace s' = trace example_map @ evs"
    and fd: "distinct (freed evs)"
    and fs: "set (freed evs) = nodes (heap example_map) 1 [1] 1 - {1}"
    and gd: "distinct (finalized evs)"
    and gs: "set (finalized evs) = nodes (heap example_map) 1 [1] 1"
    and ld: "distinct (destructed evs)"
    and ls: "set (destructed evs) =
             {q \<in> nodes (heap example_map) 1 [1] 1. \<exists>l. heap example_map q = Some (Term l)}"
    and gone: "\<forall>q \<in> nodes (heap example_map) 1 [1] 1 - {1}. heap s' q = None"
    and root: "heap s' 1 \<noteq> None"
    by (elim exE conjE) (rule that)
  from fs have fs': "set (freed evs) = {2}" unfolding nodes_example_map .
  from gs have gs': "set (finalized evs) = {1, 2}" unfolding nodes_example_map_all .
  from ls have ls': "set (destructed evs) = {2}" unfolding leaves_example_map .
  from gone have g2: "heap s' 2 = None" unfolding nodes_example_map by simp
  have "length (freed evs) = 1" using distinct_card [OF fd] fs' by simp
  with fs' have f: "freed evs = [2]" by (cases "freed evs") auto
  have "length (destructed evs) = 1" using distinct_card [OF ld] ls' by simp
  with ls' have l: "destructed evs = [2]" by (cases "destructed evs") auto
  show ?thesis
    by (intro conjI exI [of _ s'] exI [of _ evs]) (fact tree_example_map d tr f gd gs' l g2 root)+
qed

end
